theory Spec2Isabelle
  imports Main
begin

section \<open>The document service of the docs application\<close>

text \<open>
  A shallow embedding of \<^verbatim>\<open>projects/docs-app/src/app/documents/document.service.ts\<close>.

  The service keeps a cache from document ids to shared observables (each an
  \<^verbatim>\<open>AsyncSubject\<close>), fetches a document over HTTP the first time its id is
  asked for, and recovers from failed fetches. The model is an event system:
  the mutable parts of the service and of the RxJS objects it creates are the
  fields of a state record, the synchronous methods are state-passing functions,
  and the asynchronous continuation of an HTTP request (the \<^verbatim>\<open>pipe\<close> that is
  subscribed in \<^verbatim>\<open>fetchDocument\<close>) is a function run when the response event
  arrives. The HTTP transport answers asynchronously, in any order, each request
  once.
\<close>

subsection \<open>Values\<close>

text \<open>
  What the markdown compiler may hand back at run time: the declared type is
  a string, JavaScript also lets \<^verbatim>\<open>null\<close> and \<^verbatim>\<open>undefined\<close> through.
\<close>

datatype markup = Markup string | MNull | MUndefined

record DocumentContents =
  doc_id :: string
  contents :: markup

datatype jsval = Undefined | Null | Str string | Obj DocumentContents

fun truthy :: "jsval \<Rightarrow> bool" where
  "truthy Undefined = False"
| "truthy Null = False"
| "truthy (Str s) = (s \<noteq> [])"
| "truthy (Obj d) = True"

fun typeof :: "jsval \<Rightarrow> string" where
  "typeof Undefined = ''undefined''"
| "typeof Null = ''object''"
| "typeof (Str s) = ''string''"
| "typeof (Obj d) = ''object''"

text \<open>
  Errors that travel on the error channel of an observable: the transport's
  \<^verbatim>\<open>HttpErrorResponse\<close> (status and message) or a thrown \<^verbatim>\<open>Error\<close>, which
  has a message and no status.
\<close>

datatype js_error = HttpErrorResponse int string | JsError string

fun status :: "js_error \<Rightarrow> int option" where
  "status (HttpErrorResponse st msg) = Some st"
| "status (JsError msg) = None"

fun message :: "js_error \<Rightarrow> string" where
  "message (HttpErrorResponse st msg) = msg"
| "message (JsError msg) = msg"

datatype 'a notification = Next 'a | Error js_error

subsection \<open>Constants\<close>

definition FILE_NOT_FOUND_ID :: string where
  "FILE_NOT_FOUND_ID = ''file-not-found''"

definition FETCHING_ERROR_ID :: string where
  "FETCHING_ERROR_ID = ''fetching-error''"

definition CONTENT_URL_PREFIX :: string where
  "CONTENT_URL_PREFIX = ''content/''"

definition DOC_CONTENT_URL_PREFIX :: string where
  "DOC_CONTENT_URL_PREFIX = CONTENT_URL_PREFIX @ ''docs/''"

definition quoted :: "char \<Rightarrow> string \<Rightarrow> string" where
  "quoted q s = q # s @ [q]"

definition FETCHING_ERROR_CONTENTS :: string where
  "FETCHING_ERROR_CONTENTS = concat (map (\<lambda>l. l @ [CHR 0x0A])
    [ [],
      ''  <div class='' @ quoted (CHR 0x22) ''nf-container l-flex-wrap flex-center'' @ ''>'',
      ''    <div class='' @ quoted (CHR 0x22) ''nf-icon material-icons'' @ ''>error_outline</div>'',
      ''    <div class='' @ quoted (CHR 0x22) ''nf-response l-flex-wrap'' @ ''>'',
      ''      <h1 class='' @ quoted (CHR 0x22) ''no-toc'' @ ''>Request for document failed.</h1>'',
      ''      <p>'',
      ''        We are unable to retrieve the ''
        @ quoted (CHR 0x22) ''<current-location></current-location>'' @ '' page at this time.'',
      ''        Please check your connection and try again later.'',
      ''      </p>'',
      ''    </div>'',
      ''  </div>'' ])"

subsection \<open>The index map and the placeholders\<close>

text \<open>
  \<^verbatim>\<open>indexMap\<close> is an object literal and \<^verbatim>\<open>indexMap[id]\<close> is a property read,
  so a read finds the seven own properties and, for any other name, what every
  object inherits from \<^verbatim>\<open>Object.prototype\<close>: its methods, and the object
  \<^verbatim>\<open>Object.prototype\<close> itself under \<^verbatim>\<open>__proto__\<close>.
\<close>

datatype property = Missing | Text string | NativeFunction string | ObjectPrototype

definition indexMap :: "(string \<times> string) list" where
  "indexMap =
    [ (''guide/store'', ''guide/store/index''),
      (''guide/effects'', ''guide/effects/index''),
      (''guide/entity'', ''guide/entity/index''),
      (''guide/router-store'', ''guide/router-store/index''),
      (''guide/store-devtools'', ''guide/store-devtools/index''),
      (''guide/data'', ''guide/data/index''),
      (''guide/schematics'', ''guide/schematics/index'') ]"

definition objectPrototypeMethods :: "string list" where
  "objectPrototypeMethods =
    [ ''constructor'', ''hasOwnProperty'', ''isPrototypeOf'', ''propertyIsEnumerable'',
      ''toLocaleString'', ''toString'', ''valueOf'',
      ''__defineGetter__'', ''__defineSetter__'', ''__lookupGetter__'', ''__lookupSetter__'' ]"

definition indexMap_get :: "string \<Rightarrow> property" where
  "indexMap_get k =
    (case map_of indexMap k of
       Some v \<Rightarrow> Text v
     | None \<Rightarrow>
         if k = ''__proto__'' then ObjectPrototype
         else if k \<in> set objectPrototypeMethods then NativeFunction k
         else Missing)"

fun property_truthy :: "property \<Rightarrow> bool" where
  "property_truthy Missing = False"
| "property_truthy (Text v) = (v \<noteq> [])"
| "property_truthy (NativeFunction f) = True"
| "property_truthy ObjectPrototype = True"

definition placeholders :: "string list" where
  "placeholders = [''resources'', ''events'']"

subsection \<open>Collaborators\<close>

text \<open>
  What the service is constructed with: the base href of the location service,
  the markdown compiler (which returns a value or throws) and, for the one place
  where a function may end up in a template string, the engine's rendering of a
  native function as text.
\<close>

record env =
  baseHref :: string
  compile :: "string \<Rightarrow> js_error + markup"
  nativeToString :: "string \<Rightarrow> string"

fun property_string :: "env \<Rightarrow> property \<Rightarrow> string" where
  "property_string E Missing = ''undefined''"
| "property_string E (Text v) = v"
| "property_string E (NativeFunction f) = nativeToString E f"
| "property_string E ObjectPrototype = ''[object Object]''"

subsection \<open>State\<close>

text \<open>
  An \<^verbatim>\<open>AsyncSubject\<close> is open until it completes or fails; then it holds its
  last notification for ever and replays it to late subscribers. Its observers
  here are the subjects of other fetches that were redirected to it by
  \<^verbatim>\<open>catchError\<close>. Subjects are named by their position in the list of all
  subjects created so far.
\<close>

record AsyncSubject =
  terminal :: "DocumentContents notification option"
  observers :: "nat list"

record request =
  req_subject :: nat
  req_id :: string
  req_path :: string

datatype log_entry = Log string jsval | LogError string

record state =
  cache :: "string \<rightharpoonup> nat"
  subjects :: "AsyncSubject list"
  pending :: "request list"
  requests :: "request list"
  logged :: "log_entry list"
  inner :: "nat option"
  emitted :: "DocumentContents notification list"
  stopped :: bool

text \<open>
  \<open>pending\<close> holds the HTTP requests in flight, \<open>requests\<close> every call of
  \<^verbatim>\<open>http.get\<close> so far, oldest first; \<open>inner\<close> is the inner subscription of the
  \<^verbatim>\<open>switchMap\<close> behind \<^verbatim>\<open>currentDocument\<close>, \<open>emitted\<close> what
  \<^verbatim>\<open>currentDocument\<close> has sent to its subscriber, \<open>stopped\<close> whether it has
  failed.
\<close>

definition init :: state where
  "init = \<lparr> cache = Map.empty, subjects = [], pending = [], requests = [], logged = [],
            inner = None, emitted = [], stopped = False \<rparr>"

text \<open>
  A subject is looked up by its position; \<open>result\<close> is what it has latched,
  if it is closed.
\<close>

definition subject_at :: "state \<Rightarrow> nat \<Rightarrow> AsyncSubject option" where
  "subject_at s h = (if h < length (subjects s) then Some (subjects s ! h) else None)"

definition result :: "state \<Rightarrow> nat \<Rightarrow> DocumentContents notification option" where
  "result s h = (case subject_at s h of None \<Rightarrow> None | Some a \<Rightarrow> terminal a)"

definition is_open :: "state \<Rightarrow> nat \<Rightarrow> bool" where
  "is_open s h = (case subject_at s h of None \<Rightarrow> False | Some a \<Rightarrow> terminal a = None)"

definition open_count :: "state \<Rightarrow> nat" where
  "open_count s = length (filter (\<lambda>a. terminal a = None) (subjects s))"

subsection \<open>Delivery of a terminal notification\<close>

definition notify_stream :: "DocumentContents notification \<Rightarrow> state \<Rightarrow> state" where
  "notify_stream n s =
    (case n of
       Next d \<Rightarrow> s\<lparr>inner := None, emitted := emitted s @ [Next d]\<rparr>
     | Error e \<Rightarrow> s\<lparr>inner := None, emitted := emitted s @ [Error e], stopped := True\<rparr>)"

definition settle :: "DocumentContents notification \<Rightarrow> nat \<Rightarrow> state \<Rightarrow> state" where
  "settle n h s =
    (let s1 = s\<lparr>subjects := (subjects s)[h := \<lparr>terminal = Some n, observers = []\<rparr>]\<rparr>
     in if inner s1 = Some h then notify_stream n s1 else s1)"

text \<open>
  A subject that receives its terminal notification stores it, tells the
  stream if the stream is subscribed to it, and passes the notification on to
  the subjects subscribed to it, which do the same. A subject that is already
  closed ignores the notification.
\<close>

function deliver :: "DocumentContents notification \<Rightarrow> nat list \<Rightarrow> state \<Rightarrow> state" where
  "deliver n [] s = s"
| "deliver n (h # hs) s =
    (if is_open s h
     then deliver n (observers (subjects s ! h) @ hs) (settle n h s)
     else deliver n hs s)"
  by pat_completeness auto

termination deliver
proof (relation "measures [\<lambda>(n, hs, s). open_count s, \<lambda>(n, hs, s). length hs]")
  show "wf (measures [\<lambda>(n :: DocumentContents notification, hs :: nat list, s). open_count s,
         \<lambda>(n, hs, s). length hs])"
    by simp
next
  fix n :: "DocumentContents notification" and h :: nat and hs :: "nat list" and s :: state
  assume op: "is_open s h"
  have upd: "length (filter P (xs[i := v])) < length (filter P xs)"
    if "i < length xs" "P (xs ! i)" "\<not> P v" for P :: "AsyncSubject \<Rightarrow> bool" and xs i v
    using that by (simp add: upd_conv_take_nth_drop) (subst (2) id_take_nth_drop[of i xs], simp_all)
  from op have "h < length (subjects s)" "terminal (subjects s ! h) = None"
    by (auto simp: is_open_def subject_at_def split: if_splits)
  then have "open_count (settle n h s) < open_count s"
    by (auto simp: open_count_def settle_def notify_stream_def Let_def upd split: notification.splits)
  then show "((n, observers (subjects s ! h) @ hs, settle n h s), (n, h # hs, s))
      \<in> measures [\<lambda>(n, hs, s). open_count s, \<lambda>(n, hs, s). length hs]"
    by simp
next
  fix n :: "DocumentContents notification" and h :: nat and hs :: "nat list" and s :: state
  show "((n, hs, s), (n, h # hs, s))
      \<in> measures [\<lambda>(n, hs, s). open_count s, \<lambda>(n, hs, s). length hs]"
    by simp
qed

subsection \<open>The service's methods\<close>

text \<open>
  \<^verbatim>\<open>fetchDocument\<close> up to its \<^verbatim>\<open>return\<close>: it picks the source document, builds
  the request path, creates the subject, hands the request to the transport and
  returns the subject. What it subscribes to the request runs later, in
  \<open>on_response\<close>.
\<close>

definition source_doc :: "env \<Rightarrow> string \<Rightarrow> string" where
  "source_doc E ident =
    (let placeholder = find (\<lambda>ph. ph = ident) placeholders
     in if property_truthy (indexMap_get ident) then property_string E (indexMap_get ident)
        else if (case placeholder of None \<Rightarrow> False | Some ph \<Rightarrow> truthy (Str ph)) then ''placeholder''
        else ident)"

definition request_path :: "env \<Rightarrow> string \<Rightarrow> string" where
  "request_path E ident = baseHref E @ DOC_CONTENT_URL_PREFIX @ source_doc E ident @ ''.md''"

definition fetchDocument :: "env \<Rightarrow> string \<Rightarrow> state \<Rightarrow> nat \<times> state" where
  "fetchDocument E ident s =
    (let requestPath = request_path E ident;
         subject = length (subjects s);
         s1 = s\<lparr>subjects := subjects s @ [\<lparr>terminal = None, observers = []\<rparr>]\<rparr>;
         s2 = s1\<lparr>logged := logged s1 @ [Log ''fetching document from'' (Str requestPath)]\<rparr>;
         r = \<lparr>req_subject = subject, req_id = ident, req_path = requestPath\<rparr>;
         s3 = s2\<lparr>pending := pending s2 @ [r], requests := requests s2 @ [r]\<rparr>
     in (subject, s3))"

definition document_id :: "string \<Rightarrow> string" where
  "document_id url = (if truthy (Str url) then url else ''index'')"

definition getDocument :: "env \<Rightarrow> string \<Rightarrow> state \<Rightarrow> nat \<times> state" where
  "getDocument E url s =
    (let ident = document_id url;
         s1 = s\<lparr>logged := logged s @ [Log ''getting document'' (Str ident)]\<rparr>
     in case cache s1 ident of
          Some subject \<Rightarrow> (subject, s1)
        | None \<Rightarrow>
            (let (subject, s2) = fetchDocument E ident s1
             in (subject, s2\<lparr>cache := (cache s2)(ident \<mapsto> subject)\<rparr>)))"

text \<open>What \<^verbatim>\<open>catchError\<close> is handed back: \<^verbatim>\<open>of(document)\<close> or a shared subject.\<close>

datatype source = Of DocumentContents | Shared nat

definition getFileNotFoundDoc :: "env \<Rightarrow> string \<Rightarrow> state \<Rightarrow> source \<times> state" where
  "getFileNotFoundDoc E ident s =
    (if ident \<noteq> FILE_NOT_FOUND_ID
     then (let s1 = s\<lparr>logged := logged s
                     @ [LogError (''Document file not found at '' @ quoted (CHR 0x27) ident)]\<rparr>;
               (subject, s2) = getDocument E FILE_NOT_FOUND_ID s1
           in (Shared subject, s2))
     else (Of \<lparr>doc_id = FILE_NOT_FOUND_ID, contents = Markup ''Document not found''\<rparr>, s))"

definition getErrorDoc :: "string \<Rightarrow> js_error \<Rightarrow> state \<Rightarrow> source \<times> state" where
  "getErrorDoc ident err s =
    (let s1 = s\<lparr>logged := logged s
               @ [LogError (''Error fetching document '' @ quoted (CHR 0x27) ident
                            @ '': ('' @ message err @ '')'')]\<rparr>;
         s2 = s1\<lparr>cache := (cache s1)(ident := None)\<rparr>
     in (Of \<lparr>doc_id = FETCHING_ERROR_ID, contents = Markup FETCHING_ERROR_CONTENTS\<rparr>, s2))"

subsection \<open>The pipe subscribed to a request\<close>

definition map_step :: "env \<Rightarrow> string \<Rightarrow> string notification \<Rightarrow> DocumentContents notification" where
  "map_step E ident n =
    (case n of
       Error e \<Rightarrow> Error e
     | Next data \<Rightarrow>
         (case compile E data of
            Inl e \<Rightarrow> Error e
          | Inr v \<Rightarrow> Next \<lparr>doc_id = ident, contents = v\<rparr>))"

definition tap_step ::
  "DocumentContents notification \<Rightarrow> state \<Rightarrow> DocumentContents notification \<times> state" where
  "tap_step n s =
    (case n of
       Error e \<Rightarrow> (Error e, s)
     | Next data \<Rightarrow>
         if \<not> truthy (Obj data) \<or> typeof (Obj data) \<noteq> ''object''
         then (Error (JsError ''Invalid data''),
               s\<lparr>logged := logged s @ [Log ''received invalid data:'' (Obj data)]\<rparr>)
         else (Next data, s))"

definition catchError_step ::
  "env \<Rightarrow> string \<Rightarrow> DocumentContents notification \<Rightarrow> state \<Rightarrow> source \<times> state" where
  "catchError_step E ident n s =
    (case n of
       Next data \<Rightarrow> (Of data, s)
     | Error e \<Rightarrow>
         if status e = Some 404 then getFileNotFoundDoc E ident s else getErrorDoc ident e s)"

text \<open>
  \<^verbatim>\<open>.subscribe(subject)\<close>: the subject receives what the source sends. A value
  from \<^verbatim>\<open>of\<close> arrives at once; an open shared subject takes the subject among
  its observers; a closed one replays its notification.
\<close>

definition subscribe :: "nat \<Rightarrow> source \<Rightarrow> state \<Rightarrow> state" where
  "subscribe subject src s =
    (case src of
       Of data \<Rightarrow> deliver (Next data) [subject] s
     | Shared h \<Rightarrow>
         (case subject_at s h of
            None \<Rightarrow> s
          | Some a \<Rightarrow>
              (case terminal a of
                 None \<Rightarrow> s\<lparr>subjects := (subjects s)[h := a\<lparr>observers := observers a @ [subject]\<rparr>]\<rparr>
               | Some n \<Rightarrow> deliver n [subject] s)))"

definition on_response :: "env \<Rightarrow> request \<Rightarrow> string notification \<Rightarrow> state \<Rightarrow> state" where
  "on_response E r outcome s =
    (let n1 = map_step E (req_id r) outcome;
         (n2, s1) = tap_step n1 s;
         (src, s2) = catchError_step E (req_id r) n2 s1
     in subscribe (req_subject r) src s2)"

subsection \<open>Events\<close>

text \<open>
  \<open>Navigate\<close> is a value of \<^verbatim>\<open>location.currentPath\<close> reaching the
  \<^verbatim>\<open>switchMap\<close> of \<^verbatim>\<open>currentDocument\<close>; \<open>GetDocument\<close> is any other call of
  \<^verbatim>\<open>getDocument\<close>; \<open>Response\<close> is the transport answering the request of a
  subject, with the text or with an error.
\<close>

datatype event = Navigate string | GetDocument string | Response nat "string notification"

definition navigate :: "env \<Rightarrow> string \<Rightarrow> state \<Rightarrow> state" where
  "navigate E path s =
    (if stopped s then s
     else (let (subject, s1) = getDocument E path s;
               s2 = s1\<lparr>inner := Some subject\<rparr>
           in case result s2 subject of
                None \<Rightarrow> s2
              | Some n \<Rightarrow> notify_stream n s2))"

definition respond :: "env \<Rightarrow> nat \<Rightarrow> string notification \<Rightarrow> state \<Rightarrow> state" where
  "respond E h outcome s =
    (case find (\<lambda>r. req_subject r = h) (pending s) of
       None \<Rightarrow> s
     | Some r \<Rightarrow>
         on_response E r outcome (s\<lparr>pending := filter (\<lambda>r'. req_subject r' \<noteq> h) (pending s)\<rparr>))"

fun step :: "env \<Rightarrow> event \<Rightarrow> state \<Rightarrow> state" where
  "step E (Navigate path) s = navigate E path s"
| "step E (GetDocument url) s = snd (getDocument E url s)"
| "step E (Response h outcome) s = respond E h outcome s"

text \<open>
  Collaborators for examples. The compiler wraps a text in a paragraph, returns
  \<^verbatim>\<open>null\<close> for the empty text and throws on the text \<^verbatim>\<open>throw\<close>. Native
  functions are rendered as V8 does: by the function's name, which for the
  property \<^verbatim>\<open>constructor\<close> is \<^verbatim>\<open>Object\<close>.
\<close>

definition demo_env :: env where
  "demo_env =
    \<lparr> baseHref = ''/'',
      compile = (\<lambda>t. if t = [] then Inr MNull
                     else if t = ''throw'' then Inl (JsError ''cannot compile'')
                     else Inr (Markup (''<p>'' @ t @ ''</p>''))),
      nativeToString = (\<lambda>f. ''function '' @ (if f = ''constructor'' then ''Object'' else f)
                             @ ''() { [native code] }'') \<rparr>"

fun run :: "env \<Rightarrow> event list \<Rightarrow> state \<Rightarrow> state" where
  "run E [] s = s"
| "run E (e # es) s = run E es (step E e s)"

subsection \<open>Reading a state\<close>

text \<open>
  A subject is in flight while its request is with the transport. A subject
  observes another after a 404 redirected it to the subject of the not-found
  document. \<open>id_of\<close> reads the id a subject was created for off the history
  of requests (the \<open>k\<close>-th request is the one of the \<open>k\<close>-th subject), and
  \<open>fetches\<close> lists the requests made for an id, oldest first. \<open>taken\<close> is
  the state in which the transport has handed a request back and its response
  has not been handled yet.
\<close>

definition fresh :: AsyncSubject where
  "fresh = \<lparr>terminal = None, observers = []\<rparr>"

definition closed :: "DocumentContents notification \<Rightarrow> AsyncSubject" where
  "closed n = \<lparr>terminal = Some n, observers = []\<rparr>"

definition in_flight :: "state \<Rightarrow> nat set" where
  "in_flight s = req_subject ` set (pending s)"

definition observes :: "state \<Rightarrow> nat \<Rightarrow> nat \<Rightarrow> bool" where
  "observes s ob h = (case subject_at s h of None \<Rightarrow> False | Some a \<Rightarrow> ob \<in> set (observers a))"

definition id_of :: "state \<Rightarrow> nat \<Rightarrow> string option" where
  "id_of s h = (if h < length (requests s) then Some (req_id (requests s ! h)) else None)"

definition fetches :: "string \<Rightarrow> state \<Rightarrow> request list" where
  "fetches i s = filter (\<lambda>r. req_id r = i) (requests s)"

definition taken :: "nat \<Rightarrow> state \<Rightarrow> state" where
  "taken h s = s\<lparr>pending := filter (\<lambda>r'. req_subject r' \<noteq> h) (pending s)\<rparr>"

text \<open>The two documents that error recovery makes up itself.\<close>

definition error_doc :: DocumentContents where
  "error_doc = \<lparr>doc_id = FETCHING_ERROR_ID, contents = Markup FETCHING_ERROR_CONTENTS\<rparr>"

definition not_found_doc :: DocumentContents where
  "not_found_doc = \<lparr>doc_id = FILE_NOT_FOUND_ID, contents = Markup ''Document not found''\<rparr>"

definition failed :: "state \<Rightarrow> request \<Rightarrow> bool" where
  "failed s r = (result s (req_subject r) = Some (Next error_doc))"

fun is_navigation :: "event \<Rightarrow> bool" where
  "is_navigation (Navigate p) = True"
| "is_navigation (GetDocument u) = False"
| "is_navigation (Response h outcome) = False"

subsection \<open>Invariants\<close>

text \<open>
  What holds of every state the service can reach.
  \<^item> \<open>inv_pending\<close>: the subject of a request in flight is open and is the cache
    entry of the request's id, which is not empty.
  \<^item> \<open>inv_hist\<close>: no two requests in flight share a subject, and there are as
    many requests in the history as subjects.
  \<^item> \<open>inv_obs\<close>: only the subject of the request in flight for the not-found
    document has observers; an observer is open, not in flight, and was created
    for another id.
  \<^item> \<open>inv_live\<close>: an open subject is in flight or observes a subject.
  \<^item> \<open>inv_results\<close>: no subject holds a failure and the stream has not failed.
  \<^item> \<open>inv_cache\<close>: a cache entry points to a subject created for its id.

  The first argument of \<open>consistent\<close> names the subject whose response is being
  handled and its id, between the moment its request leaves \<open>pending\<close> and the
  moment the subject is closed or subscribed elsewhere; \<open>inv_serving\<close> says
  what holds of it in between.
\<close>

definition inv_pending :: "state \<Rightarrow> bool" where
  "inv_pending s = (\<forall>r\<in>set (pending s).
      is_open s (req_subject r) \<and> cache s (req_id r) = Some (req_subject r)
      \<and> req_id r \<noteq> [] \<and> id_of s (req_subject r) = Some (req_id r))"

definition inv_hist :: "state \<Rightarrow> bool" where
  "inv_hist s = (distinct (map req_subject (pending s))
      \<and> length (requests s) = length (subjects s))"

definition inv_obs :: "(nat \<times> string) option \<Rightarrow> state \<Rightarrow> bool" where
  "inv_obs sv s = (\<forall>h ob. observes s ob h \<longrightarrow>
      ((\<exists>r\<in>set (pending s). req_subject r = h \<and> req_id r = FILE_NOT_FOUND_ID)
        \<or> sv = Some (h, FILE_NOT_FOUND_ID))
      \<and> ob \<notin> in_flight s \<and> is_open s ob
      \<and> (\<exists>i. id_of s ob = Some i \<and> i \<noteq> FILE_NOT_FOUND_ID)
      \<and> (\<forall>i. sv \<noteq> Some (ob, i)))"

definition inv_live :: "(nat \<times> string) option \<Rightarrow> state \<Rightarrow> bool" where
  "inv_live sv s = (\<forall>h. is_open s h \<longrightarrow>
      h \<in> in_flight s \<or> (\<exists>h'. observes s h h') \<or> (\<exists>i. sv = Some (h, i)))"

definition inv_results :: "state \<Rightarrow> bool" where
  "inv_results s = ((\<forall>h n. result s h = Some n \<longrightarrow> (\<exists>d. n = Next d)) \<and> \<not> stopped s)"

definition inv_cache :: "state \<Rightarrow> bool" where
  "inv_cache s = (\<forall>i h. cache s i = Some h \<longrightarrow> id_of s h = Some i)"

definition inv_serving :: "(nat \<times> string) option \<Rightarrow> state \<Rightarrow> bool" where
  "inv_serving sv s = (\<forall>h i. sv = Some (h, i) \<longrightarrow>
      is_open s h \<and> h \<notin> in_flight s \<and> id_of s h = Some i \<and> i \<noteq> []
        \<and> (\<forall>r\<in>set (pending s). req_id r \<noteq> i))"

definition consistent :: "(nat \<times> string) option \<Rightarrow> state \<Rightarrow> bool" where
  "consistent sv s = (inv_pending s \<and> inv_hist s \<and> inv_obs sv s \<and> inv_live sv s
      \<and> inv_results s \<and> inv_cache s \<and> inv_serving sv s)"

text \<open>
  Further invariants, each proved on its own: every request went to the path
  resolved for its id; the \<open>k\<close>-th request of the history belongs to the
  \<open>k\<close>-th subject; the stream has emitted documents only; and every request
  for an id but the latest has ended in the fetching-error document, the latest
  being the one of the id's cache entry, if there is an entry.
\<close>

definition inv_path :: "env \<Rightarrow> state \<Rightarrow> bool" where
  "inv_path E s = (\<forall>r\<in>set (pending s) \<union> set (requests s). req_path r = request_path E (req_id r))"

definition inv_index :: "state \<Rightarrow> bool" where
  "inv_index s = (\<forall>k<length (requests s). req_subject (requests s ! k) = k)"

definition inv_emitted :: "state \<Rightarrow> bool" where
  "inv_emitted s = (stopped s \<or> (\<forall>n\<in>set (emitted s). \<exists>d. n = Next d))"

definition inv_refetch :: "string \<Rightarrow> state \<Rightarrow> bool" where
  "inv_refetch i s =
    ((\<forall>r\<in>set (butlast (fetches i s)). failed s r)
     \<and> (case cache s i of
          None \<Rightarrow> \<forall>r\<in>set (fetches i s). failed s r
        | Some h \<Rightarrow> fetches i s \<noteq> [] \<and> req_subject (last (fetches i s)) = h))"

text \<open>
  \<open>flat\<close>: no subject on a worklist of \<open>deliver\<close> has observers.
  \<open>tuned h em\<close>: the stream had emitted \<open>em\<close> when it subscribed to the
  subject \<open>h\<close>, and since then it has emitted the result of \<open>h\<close>, if
  \<open>h\<close> has one, and nothing else.
\<close>

definition flat :: "state \<Rightarrow> nat list \<Rightarrow> bool" where
  "flat s hs = (\<forall>h\<in>set hs. \<forall>a. subject_at s h = Some a \<longrightarrow> observers a = [])"

definition tuned :: "nat \<Rightarrow> DocumentContents notification list \<Rightarrow> state \<Rightarrow> bool" where
  "tuned h em s =
    ((is_open s h \<and> inner s = Some h \<and> emitted s = em)
     \<or> (\<exists>n. result s h = Some n \<and> inner s = None \<and> emitted s = em @ [n]))"

text \<open>
  Modelled from the spec: the declaration of the type \<^verbatim>\<open>DocumentContents\<close>
  (\<^verbatim>\<open>document-contents.ts\<close>) is not among the sources. In the spec's data model
  a Document is an id, which is never empty, together with a rendered-markup
  string as contents.
\<close>

definition is_document :: "DocumentContents \<Rightarrow> bool" where
  "is_document d =
    (doc_id d \<noteq> [] \<and> (case contents d of Markup t \<Rightarrow> True | MNull \<Rightarrow> False | MUndefined \<Rightarrow> False))"

text \<open>
  What the pipe can hand to a subject: one of the two documents of error
  recovery, or a requested id with what the compiler returned for some text.
  \<open>inv_docs\<close>: every subject that is closed holds such a document.
  \<open>inv_heard\<close>: whatever the stream has emitted is the result of a subject.
\<close>

definition delivered :: "env \<Rightarrow> DocumentContents \<Rightarrow> bool" where
  "delivered E d =
    (d = error_doc \<or> d = not_found_doc
     \<or> (doc_id d \<noteq> [] \<and> (\<exists>raw. compile E raw = Inr (contents d))))"

definition inv_docs :: "env \<Rightarrow> state \<Rightarrow> bool" where
  "inv_docs E s = (\<forall>h n. result s h = Some n \<longrightarrow> (\<exists>d. n = Next d \<and> delivered E d))"

definition inv_heard :: "state \<Rightarrow> bool" where
  "inv_heard s = (\<forall>m\<in>set (emitted s). \<exists>h. result s h = Some m)"

section \<open>Properties of delivery\<close>

lemma subject_at_simps:
  "subject_at (s\<lparr>logged := l\<rparr>) = subject_at s"
  "subject_at (s\<lparr>cache := c\<rparr>) = subject_at s"
  "subject_at (s\<lparr>pending := p\<rparr>) = subject_at s"
  "subject_at (s\<lparr>requests := q\<rparr>) = subject_at s"
  "subject_at (s\<lparr>inner := i\<rparr>) = subject_at s"
  "subject_at (s\<lparr>emitted := e\<rparr>) = subject_at s"
  "subject_at (s\<lparr>stopped := b\<rparr>) = subject_at s"
  by (simp_all add: subject_at_def fun_eq_iff)

lemma notify_stream_frame:
  "cache (notify_stream n s) = cache s"
  "pending (notify_stream n s) = pending s"
  "requests (notify_stream n s) = requests s"
  "logged (notify_stream n s) = logged s"
  "subjects (notify_stream n s) = subjects s"
  by (simp_all add: notify_stream_def split: notification.splits)

lemma settle_frame:
  "cache (settle n h s) = cache s"
  "pending (settle n h s) = pending s"
  "requests (settle n h s) = requests s"
  "logged (settle n h s) = logged s"
  "subjects (settle n h s) = (subjects s)[h := \<lparr>terminal = Some n, observers = []\<rparr>]"
  by (simp_all add: settle_def Let_def notify_stream_frame)

lemma deliver_frame:
  "cache (deliver n hs s) = cache s \<and> pending (deliver n hs s) = pending s
   \<and> requests (deliver n hs s) = requests s \<and> logged (deliver n hs s) = logged s
   \<and> length (subjects (deliver n hs s)) = length (subjects s)"
  by (induction n hs s rule: deliver.induct) (simp_all add: settle_frame)

lemma subject_at_settle:
  "subject_at (settle n h s) k =
     (if k = h \<and> h < length (subjects s) then Some \<lparr>terminal = Some n, observers = []\<rparr>
      else subject_at s k)"
  by (simp add: subject_at_def settle_frame)

lemma is_open_settle: "is_open (settle n h s) k = (is_open s k \<and> k \<noteq> h)"
  by (auto simp: is_open_def subject_at_settle) (auto simp: subject_at_def)

text \<open>A closed subject is never touched again.\<close>

lemma deliver_closed: "\<not> is_open s k \<Longrightarrow> subject_at (deliver n hs s) k = subject_at s k"
proof (induction n hs s rule: deliver.induct)
  case (1 n s)
  then show ?case by simp
next
  case (2 n h hs s)
  show ?case
  proof (cases "is_open s h")
    case True
    with 2 have "k \<noteq> h" by auto
    with 2 True show ?thesis by (simp add: is_open_settle subject_at_settle)
  next
    case False
    with 2 show ?thesis by simp
  qed
qed

text \<open>When no subject on the worklist has observers, delivery closes the open ones on it.\<close>

lemma flat_settle: "flat s hs \<Longrightarrow> flat (settle n h s) hs"
  by (auto simp: flat_def subject_at_settle split: if_splits)

lemma deliver_flat:
  "flat s hs \<Longrightarrow> subject_at (deliver n hs s) k =
     (if k \<in> set hs \<and> is_open s k then Some \<lparr>terminal = Some n, observers = []\<rparr>
      else subject_at s k)"
proof (induction hs arbitrary: s)
  case Nil
  then show ?case by simp
next
  case (Cons h hs)
  from Cons.prems have fl: "flat s hs" by (simp add: flat_def)
  show ?case
  proof (cases "is_open s h")
    case True
    then obtain a where a: "subject_at s h = Some a" "terminal a = None"
      by (auto simp: is_open_def split: option.splits)
    with Cons.prems have "observers a = []" by (simp add: flat_def)
    with a have obs: "observers (subjects s ! h) = []"
      by (auto simp: subject_at_def split: if_splits)
    from a have hlt: "h < length (subjects s)" by (auto simp: subject_at_def split: if_splits)
    have "subject_at (deliver n hs (settle n h s)) k =
       (if k \<in> set hs \<and> is_open (settle n h s) k then Some \<lparr>terminal = Some n, observers = []\<rparr>
        else subject_at (settle n h s) k)"
      by (rule Cons.IH) (rule flat_settle[OF fl])
    with True obs hlt show ?thesis
      by (auto simp: is_open_settle subject_at_settle)
  next
    case False
    with Cons.IH[OF fl] show ?thesis by (auto simp: is_open_def)
  qed
qed

text \<open>The stream hears of a delivery at most once, and only from the subject it is subscribed to.\<close>

lemma deliver_stream_idle:
  "inner s = None \<Longrightarrow>
   inner (deliver n hs s) = None \<and> emitted (deliver n hs s) = emitted s
   \<and> stopped (deliver n hs s) = stopped s"
  by (induction n hs s rule: deliver.induct) (simp_all add: settle_def Let_def)

lemma deliver_stream:
  "(inner (deliver n hs s) = inner s \<and> emitted (deliver n hs s) = emitted s
      \<and> stopped (deliver n hs s) = stopped s)
   \<or> (\<exists>h. inner s = Some h \<and> is_open s h \<and> inner (deliver n hs s) = None
        \<and> emitted (deliver n hs s) = emitted s @ [n]
        \<and> stopped (deliver n hs s) = (stopped s \<or> (\<exists>e. n = Error e))
        \<and> result (deliver n hs s) h = Some n)"
proof (induction n hs s rule: deliver.induct)
  case (1 n s)
  then show ?case by simp
next
  case (2 n h hs s)
  show ?case
  proof (cases "is_open s h")
    case False
    with 2 show ?thesis by simp
  next
    case op: True
    then have hlt: "h < length (subjects s)" by (auto simp: is_open_def subject_at_def split: if_splits)
    let ?s1 = "settle n h s"
    let ?ws = "observers (subjects s ! h) @ hs"
    show ?thesis
    proof (cases "inner s = Some h")
      case True
      then have s1: "inner ?s1 = None" "emitted ?s1 = emitted s @ [n]"
        "stopped ?s1 = (stopped s \<or> (\<exists>e. n = Error e))"
        by (auto simp: settle_def Let_def notify_stream_def split: notification.splits)
      have "\<not> is_open ?s1 h" by (simp add: is_open_settle)
      then have "subject_at (deliver n ?ws ?s1) h = subject_at ?s1 h" by (rule deliver_closed)
      then have "result (deliver n ?ws ?s1) h = Some n"
        using hlt by (simp add: result_def subject_at_settle)
      with deliver_stream_idle[OF s1(1), of n ?ws] s1 op True show ?thesis by simp
    next
      case False
      then have s1: "inner ?s1 = inner s" "emitted ?s1 = emitted s" "stopped ?s1 = stopped s"
        by (auto simp: settle_def Let_def)
      from 2(1)[OF op] s1 op show ?thesis by (auto simp: is_open_settle)
    qed
  qed
qed

section \<open>The invariant holds in every reachable state\<close>

lemmas inv_defs = inv_pending_def inv_hist_def inv_obs_def inv_live_def inv_results_def
  inv_cache_def inv_serving_def

lemma is_open_lt: "is_open s h \<Longrightarrow> h < length (subjects s)"
  by (auto simp: is_open_def subject_at_def split: if_splits)

lemma consistent_init: "consistent None init"
  by (simp add: consistent_def inv_defs init_def is_open_def subject_at_def observes_def result_def)

text \<open>Fields the invariant does not read.\<close>

lemma is_open_simps:
  "is_open (s\<lparr>logged := l\<rparr>) = is_open s"
  "is_open (s\<lparr>cache := c\<rparr>) = is_open s"
  "is_open (s\<lparr>pending := p\<rparr>) = is_open s"
  "is_open (s\<lparr>requests := q\<rparr>) = is_open s"
  "is_open (s\<lparr>inner := i\<rparr>) = is_open s"
  "is_open (s\<lparr>emitted := e\<rparr>) = is_open s"
  "is_open (s\<lparr>stopped := b\<rparr>) = is_open s"
  by (simp_all add: is_open_def subject_at_simps fun_eq_iff)

lemma result_simps:
  "result (s\<lparr>logged := l\<rparr>) = result s"
  "result (s\<lparr>cache := c\<rparr>) = result s"
  "result (s\<lparr>pending := p\<rparr>) = result s"
  "result (s\<lparr>requests := q\<rparr>) = result s"
  "result (s\<lparr>inner := i\<rparr>) = result s"
  "result (s\<lparr>emitted := e\<rparr>) = result s"
  "result (s\<lparr>stopped := b\<rparr>) = result s"
  by (simp_all add: result_def subject_at_simps fun_eq_iff)

lemma observes_simps:
  "observes (s\<lparr>logged := l\<rparr>) = observes s"
  "observes (s\<lparr>cache := c\<rparr>) = observes s"
  "observes (s\<lparr>pending := p\<rparr>) = observes s"
  "observes (s\<lparr>requests := q\<rparr>) = observes s"
  "observes (s\<lparr>inner := i\<rparr>) = observes s"
  "observes (s\<lparr>emitted := e\<rparr>) = observes s"
  "observes (s\<lparr>stopped := b\<rparr>) = observes s"
  by (simp_all add: observes_def subject_at_simps fun_eq_iff)

lemma in_flight_simps:
  "in_flight (s\<lparr>logged := l\<rparr>) = in_flight s"
  "in_flight (s\<lparr>cache := c\<rparr>) = in_flight s"
  "in_flight (s\<lparr>subjects := sj\<rparr>) = in_flight s"
  "in_flight (s\<lparr>requests := q\<rparr>) = in_flight s"
  "in_flight (s\<lparr>inner := i\<rparr>) = in_flight s"
  "in_flight (s\<lparr>emitted := e\<rparr>) = in_flight s"
  "in_flight (s\<lparr>stopped := b\<rparr>) = in_flight s"
  by (simp_all add: in_flight_def)

lemma id_of_simps:
  "id_of (s\<lparr>logged := l\<rparr>) = id_of s"
  "id_of (s\<lparr>cache := c\<rparr>) = id_of s"
  "id_of (s\<lparr>subjects := sj\<rparr>) = id_of s"
  "id_of (s\<lparr>pending := p\<rparr>) = id_of s"
  "id_of (s\<lparr>inner := i\<rparr>) = id_of s"
  "id_of (s\<lparr>emitted := e\<rparr>) = id_of s"
  "id_of (s\<lparr>stopped := b\<rparr>) = id_of s"
  by (simp_all add: id_of_def fun_eq_iff)

lemmas frame_simps = is_open_simps result_simps observes_simps in_flight_simps id_of_simps

lemma consistent_logged: "consistent sv (s\<lparr>logged := l\<rparr>) = consistent sv s"
  by (simp add: consistent_def inv_defs frame_simps)

lemma consistent_inner: "consistent sv (s\<lparr>inner := x\<rparr>) = consistent sv s"
  by (simp add: consistent_def inv_defs frame_simps)

lemma consistent_emitted: "consistent sv (s\<lparr>emitted := x\<rparr>) = consistent sv s"
  by (simp add: consistent_def inv_defs frame_simps)

lemma document_id_nonempty: "document_id url \<noteq> []"
  by (simp add: document_id_def)

lemma subject_at_append:
  "subject_at (s\<lparr>subjects := subjects s @ [a]\<rparr>) k =
     (if k = length (subjects s) then Some a else subject_at s k)"
  by (auto simp: subject_at_def nth_append)

lemma subject_at_None: "subject_at s (length (subjects s)) = None"
  by (simp add: subject_at_def)

lemma is_open_append:
  "is_open (s\<lparr>subjects := subjects s @ [fresh]\<rparr>) k = (k = length (subjects s) \<or> is_open s k)"
  by (auto simp: is_open_def subject_at_append subject_at_None fresh_def)

lemma result_append:
  "result (s\<lparr>subjects := subjects s @ [fresh]\<rparr>) k = result s k"
  by (auto simp: result_def subject_at_append subject_at_None fresh_def)

lemma observes_append:
  "observes (s\<lparr>subjects := subjects s @ [fresh]\<rparr>) ob k = observes s ob k"
  by (auto simp: observes_def subject_at_append subject_at_None fresh_def)

lemma observes_lt: "observes s ob h \<Longrightarrow> h < length (subjects s)"
  by (auto simp: observes_def subject_at_def split: if_splits)

lemma id_of_lt: "id_of s h = Some i \<Longrightarrow> h < length (requests s)"
  by (auto simp: id_of_def split: if_splits)

lemma subjects_cong:
  assumes "subjects s = subjects t"
  shows "subject_at s = subject_at t" "is_open s = is_open t" "result s = result t"
    "observes s = observes t"
  using assms by (simp_all add: fun_eq_iff subject_at_def is_open_def result_def observes_def)

lemma fetchDocument_eq:
  "fetchDocument E i s =
    (length (subjects s),
     s\<lparr>subjects := subjects s @ [fresh],
       logged := logged s @ [Log ''fetching document from'' (Str (request_path E i))],
       pending := pending s
         @ [\<lparr>req_subject = length (subjects s), req_id = i, req_path = request_path E i\<rparr>],
       requests := requests s
         @ [\<lparr>req_subject = length (subjects s), req_id = i, req_path = request_path E i\<rparr>]\<rparr>)"
  by (simp add: fetchDocument_def Let_def fresh_def)

lemma consistent_fetch:
  assumes consistent: "consistent sv s" and miss: "cache s i = None" and ne: "i \<noteq> []"
    and sv: "\<forall>h. sv \<noteq> Some (h, i)"
    and f: "fetchDocument E i s = (h', s')"
  shows "consistent sv (s'\<lparr>cache := (cache s')(i \<mapsto> h')\<rparr>)"
proof -
  let ?r = "\<lparr>req_subject = length (subjects s), req_id = i, req_path = request_path E i\<rparr>"
  let ?s = "s\<lparr>subjects := subjects s @ [fresh], pending := pending s @ [?r],
       requests := requests s @ [?r], cache := (cache s)(i \<mapsto> length (subjects s))\<rparr>"
  from f have h': "h' = length (subjects s)" and s': "s'\<lparr>cache := (cache s')(i \<mapsto> h')\<rparr> =
      ?s\<lparr>logged := logged s @ [Log ''fetching document from'' (Str (request_path E i))]\<rparr>"
    by (auto simp: fetchDocument_eq)
  from consistent have ip: "inv_pending s" and ih: "inv_hist s" and io: "inv_obs sv s" and il: "inv_live sv s"
    and ir: "inv_results s" and ic: "inv_cache s" and isv: "inv_serving sv s"
    by (simp_all add: consistent_def)
  from ih have len: "length (requests s) = length (subjects s)" by (simp add: inv_hist_def)
  have op: "is_open ?s k = (k = length (subjects s) \<or> is_open s k)" for k
    using is_open_append[of s k] subjects_cong(2)[of ?s "s\<lparr>subjects := subjects s @ [fresh]\<rparr>"] by simp
  have res: "result ?s k = result s k" for k
    using result_append[of s k] subjects_cong(3)[of ?s "s\<lparr>subjects := subjects s @ [fresh]\<rparr>"] by simp
  have obs: "observes ?s ob k = observes s ob k" for ob k
    using observes_append[of s ob k] subjects_cong(4)[of ?s "s\<lparr>subjects := subjects s @ [fresh]\<rparr>"] by simp
  have fl: "in_flight ?s = insert (length (subjects s)) (in_flight s)"
    by (simp add: in_flight_def)
  have idof: "id_of ?s k = (if k = length (subjects s) then Some i else id_of s k)" for k
    using len by (auto simp: id_of_def nth_append)
  have flt: "\<forall>r\<in>set (pending s). req_subject r < length (subjects s)"
    using ip by (auto simp: inv_pending_def dest: is_open_lt)
  have plt: "\<forall>r\<in>set (pending s). req_subject r \<noteq> length (subjects s)"
    using flt by fastforce
  have 1: "inv_pending ?s"
    using ip miss ne plt by (auto simp: inv_pending_def op idof)
  have 2: "inv_hist ?s"
    using ih plt by (auto simp: inv_hist_def)
  have 3: "inv_obs sv ?s"
    unfolding inv_obs_def obs op fl idof
    using io by (auto simp: inv_obs_def dest!: is_open_lt)
  have 4: "inv_live sv ?s"
    unfolding inv_live_def obs op fl using il by (auto simp: inv_live_def)
  have 5: "inv_results ?s"
    using ir by (simp add: inv_results_def res)
  have clt: "cache s j = Some k \<Longrightarrow> k \<noteq> length (subjects s)" for j k
    using ic len id_of_lt[of s k j] by (fastforce simp: inv_cache_def)
  have 6: "inv_cache ?s"
    using ic miss clt by (auto simp: inv_cache_def idof)
  have 7: "inv_serving sv ?s"
    unfolding inv_serving_def op fl idof
    using isv sv by (auto simp: inv_serving_def dest: is_open_lt)
  from 1 2 3 4 5 6 7 have "consistent sv ?s" by (simp add: consistent_def)
  then show ?thesis by (simp add: s' consistent_logged)
qed

lemma getDocument_hit:
  "cache s (document_id url) = Some h \<Longrightarrow>
   getDocument E url s =
     (h, s\<lparr>logged := logged s @ [Log ''getting document'' (Str (document_id url))]\<rparr>)"
  by (simp add: getDocument_def Let_def)

lemma getDocument_miss:
  "cache s (document_id url) = None \<Longrightarrow>
   getDocument E url s =
     (let s1 = s\<lparr>logged := logged s @ [Log ''getting document'' (Str (document_id url))]\<rparr>;
          s2 = snd (fetchDocument E (document_id url) s1)
      in (length (subjects s), s2\<lparr>cache := (cache s2)(document_id url \<mapsto> length (subjects s))\<rparr>))"
  by (simp add: getDocument_def Let_def fetchDocument_eq)

lemma consistent_getDocument:
  assumes consistent: "consistent sv s" and sv: "\<forall>h. sv \<noteq> Some (h, document_id url)"
  shows "consistent sv (snd (getDocument E url s))"
proof (cases "cache s (document_id url)")
  case (Some h)
  with consistent show ?thesis by (simp add: getDocument_hit consistent_logged)
next
  case None
  let ?s1 = "s\<lparr>logged := logged s @ [Log ''getting document'' (Str (document_id url))]\<rparr>"
  have w1: "consistent sv ?s1" using consistent by (simp add: consistent_logged)
  have c1: "cache ?s1 (document_id url) = None" using None by simp
  have f1: "fetchDocument E (document_id url) ?s1
      = (length (subjects s), snd (fetchDocument E (document_id url) ?s1))"
    by (simp add: fetchDocument_eq)
  have "consistent sv ((snd (fetchDocument E (document_id url) ?s1))
      \<lparr>cache := (cache (snd (fetchDocument E (document_id url) ?s1)))
          (document_id url \<mapsto> length (subjects s))\<rparr>)"
    by (rule consistent_fetch[OF w1 c1 document_id_nonempty sv f1])
  with None show ?thesis by (simp add: getDocument_miss Let_def)
qed

text \<open>Taking a request out of the transport's hands.\<close>

lemma find_pending:
  "find (\<lambda>r. req_subject r = h) (pending s) = Some r \<Longrightarrow> r \<in> set (pending s) \<and> req_subject r = h"
  by (auto simp: find_Some_iff)

lemma consistent_remove:
  assumes consistent: "consistent None s" and r: "r \<in> set (pending s)"
  shows "consistent (Some (req_subject r, req_id r))
           (s\<lparr>pending := filter (\<lambda>r'. req_subject r' \<noteq> req_subject r) (pending s)\<rparr>)"
proof -
  let ?h = "req_subject r"
  let ?s = "s\<lparr>pending := filter (\<lambda>r'. req_subject r' \<noteq> ?h) (pending s)\<rparr>"
  from consistent have ip: "inv_pending s" and ih: "inv_hist s" and io: "inv_obs None s"
    and il: "inv_live None s" and ir: "inv_results s" and ic: "inv_cache s"
    by (simp_all add: consistent_def)
  have same: "r' \<in> set (pending s) \<Longrightarrow> req_subject r' = ?h \<Longrightarrow> r' = r" for r'
    using ih r by (auto simp: inv_hist_def dest: inj_on_eq_iff[OF iffD1[OF distinct_map, THEN conjunct2]])
  have fl: "in_flight ?s = in_flight s - {?h}"
    by (auto simp: in_flight_def)
  have 1: "inv_pending ?s"
    using ip by (auto simp: inv_pending_def frame_simps)
  have 2: "inv_hist ?s"
    using ih by (auto simp: inv_hist_def distinct_map_filter)
  have 3: "inv_obs (Some (?h, req_id r)) ?s"
    unfolding inv_obs_def
  proof (intro allI impI)
    fix h ob
    assume "observes ?s ob h"
    then have o: "observes s ob h" by (simp add: frame_simps)
    with io obtain r' where r': "r' \<in> set (pending s)" "req_subject r' = h"
        "req_id r' = FILE_NOT_FOUND_ID"
      and rest: "ob \<notin> in_flight s" "is_open s ob"
        "\<exists>i. id_of s ob = Some i \<and> i \<noteq> FILE_NOT_FOUND_ID"
      by (auto simp: inv_obs_def)
    have "(\<exists>r\<in>set (pending ?s). req_subject r = h \<and> req_id r = FILE_NOT_FOUND_ID)
        \<or> Some (?h, req_id r) = Some (h, FILE_NOT_FOUND_ID)"
    proof (cases "h = ?h")
      case True
      with r' same have "r' = r" by simp
      with r' True show ?thesis by simp
    next
      case False
      with r' show ?thesis by auto
    qed
    moreover have "ob \<noteq> ?h" using rest(1) r by (auto simp: in_flight_def)
    ultimately show "((\<exists>r\<in>set (pending ?s). req_subject r = h \<and> req_id r = FILE_NOT_FOUND_ID)
          \<or> Some (?h, req_id r) = Some (h, FILE_NOT_FOUND_ID))
        \<and> ob \<notin> in_flight ?s \<and> is_open ?s ob
        \<and> (\<exists>i. id_of ?s ob = Some i \<and> i \<noteq> FILE_NOT_FOUND_ID)
        \<and> (\<forall>i. Some (?h, req_id r) \<noteq> Some (ob, i))"
      using rest by (simp add: fl frame_simps)
  qed
  have 4: "inv_live (Some (?h, req_id r)) ?s"
    using il by (auto simp: inv_live_def frame_simps fl)
  have 5: "inv_results ?s"
    using ir by (simp add: inv_results_def frame_simps)
  have 6: "inv_cache ?s"
    using ic by (simp add: inv_cache_def frame_simps)
  have 7: "inv_serving (Some (?h, req_id r)) ?s"
    unfolding inv_serving_def
  proof (intro allI impI)
    fix h i
    assume "Some (?h, req_id r) = Some (h, i)"
    then have [simp]: "h = ?h" "i = req_id r" by simp_all
    have "\<forall>r'\<in>set (pending ?s). req_id r' \<noteq> req_id r"
    proof
      fix r'
      assume a: "r' \<in> set (pending ?s)"
      then have b: "r' \<in> set (pending s)" "req_subject r' \<noteq> ?h" by auto
      from ip b(1) have "cache s (req_id r') = Some (req_subject r')"
        by (simp add: inv_pending_def)
      moreover from ip r have "cache s (req_id r) = Some ?h"
        by (simp add: inv_pending_def)
      ultimately show "req_id r' \<noteq> req_id r" using b(2) by auto
    qed
    with ip r show "is_open ?s h \<and> h \<notin> in_flight ?s \<and> id_of ?s h = Some i \<and> i \<noteq> []
        \<and> (\<forall>r\<in>set (pending ?s). req_id r \<noteq> i)"
      by (simp add: inv_pending_def frame_simps fl)
  qed
  from 1 2 3 4 5 6 7 show ?thesis by (simp add: consistent_def)
qed

text \<open>Evicting the id being served.\<close>

lemma consistent_evict:
  assumes consistent: "consistent (Some (h, i)) s"
  shows "consistent (Some (h, i)) (s\<lparr>cache := (cache s)(i := None)\<rparr>)"
proof -
  from consistent have "inv_serving (Some (h, i)) s" "inv_pending s" "inv_cache s"
    by (simp_all add: consistent_def)
  then have "inv_pending (s\<lparr>cache := (cache s)(i := None)\<rparr>)"
    "inv_cache (s\<lparr>cache := (cache s)(i := None)\<rparr>)"
    by (auto simp: inv_pending_def inv_serving_def inv_cache_def frame_simps)
  with consistent show ?thesis
    by (simp add: consistent_def inv_hist_def inv_obs_def inv_live_def inv_results_def inv_serving_def
        frame_simps)
qed

declare deliver.simps [simp del]

lemma deliver_in_flight: "in_flight (deliver n hs s) = in_flight s"
  by (simp add: in_flight_def deliver_frame)

lemma deliver_id_of: "id_of (deliver n hs s) = id_of s"
  by (simp add: id_of_def fun_eq_iff deliver_frame)

lemma deliver_stopped: "stopped (deliver (Next d) hs s) = stopped s"
  using deliver_stream[of "Next d" hs s] by auto

text \<open>Under the invariant a delivery closes the served subject and its observers, nothing else.\<close>

lemma deliver_served:
  assumes consistent: "consistent (Some (h, i)) s"
  shows "subject_at (deliver n [h] s) k =
    (if k = h \<or> observes s k h then Some (closed n) else subject_at s k)"
proof -
  from consistent have io: "inv_obs (Some (h, i)) s" and isv: "inv_serving (Some (h, i)) s"
    by (simp_all add: consistent_def)
  from isv have op: "is_open s h" and nf: "h \<notin> in_flight s" by (simp_all add: inv_serving_def)
  then have hlt: "h < length (subjects s)" by (simp add: is_open_lt)
  let ?os = "observers (subjects s ! h)"
  let ?s1 = "settle n h s"
  have mem: "k \<in> set ?os \<longleftrightarrow> observes s k h" for k
    using hlt by (simp add: observes_def subject_at_def)
  have leaf: "\<not> observes s x ob" if "observes s ob h" for x ob
  proof
    assume "observes s x ob"
    with io have "(\<exists>r\<in>set (pending s). req_subject r = ob \<and> req_id r = FILE_NOT_FOUND_ID)
        \<or> Some (h, i) = Some (ob, FILE_NOT_FOUND_ID)"
      unfolding inv_obs_def by blast
    moreover from io that have "ob \<notin> in_flight s" "Some (h, i) \<noteq> Some (ob, i)"
      unfolding inv_obs_def by blast+
    ultimately show False by (auto simp: in_flight_def)
  qed
  have "flat ?s1 ?os"
    unfolding flat_def
  proof (intro ballI allI impI)
    fix ob a
    assume ob: "ob \<in> set ?os" and a: "subject_at ?s1 ob = Some a"
    show "observers a = []"
    proof (cases "ob = h")
      case True
      with a hlt show ?thesis by (auto simp: subject_at_settle)
    next
      case False
      with a have a': "subject_at s ob = Some a" by (simp add: subject_at_settle)
      from ob have "observes s ob h" by (simp add: mem)
      then have "\<forall>x. \<not> observes s x ob" using leaf by blast
      with a' show ?thesis by (cases "observers a") (auto simp: observes_def)
    qed
  qed
  then have "subject_at (deliver n ?os ?s1) k =
     (if k \<in> set ?os \<and> is_open ?s1 k then Some \<lparr>terminal = Some n, observers = []\<rparr>
      else subject_at ?s1 k)"
    by (rule deliver_flat)
  moreover have "deliver n [h] s = deliver n ?os ?s1" using op by (simp add: deliver.simps)
  moreover have "observes s k h \<Longrightarrow> is_open s k \<and> k \<noteq> h"
    using io nf unfolding inv_obs_def by blast
  ultimately show ?thesis
    using hlt by (auto simp: mem is_open_settle subject_at_settle closed_def)
qed

lemma consistent_deliver:
  assumes consistent: "consistent (Some (h, i)) s"
  shows "consistent None (deliver (Next d) [h] s)"
proof -
  let ?D = "deliver (Next d) [h] s"
  from consistent have ip: "inv_pending s" and ih: "inv_hist s" and io: "inv_obs (Some (h, i)) s"
    and il: "inv_live (Some (h, i)) s" and ir: "inv_results s" and ic: "inv_cache s"
    and isv: "inv_serving (Some (h, i)) s"
    by (simp_all add: consistent_def)
  note sub = deliver_served[OF consistent, of "Next d"]
  from isv have op: "is_open s h" and nf: "h \<notin> in_flight s"
    and nid: "\<forall>r\<in>set (pending s). req_id r \<noteq> i"
    by (simp_all add: inv_serving_def)
  have obs_h: "observes s k h \<Longrightarrow> is_open s k \<and> k \<noteq> h \<and> k \<notin> in_flight s \<and> i = FILE_NOT_FOUND_ID" for k
    using io nf unfolding inv_obs_def in_flight_def by blast
  have opD: "is_open ?D k \<longleftrightarrow> is_open s k \<and> k \<noteq> h \<and> \<not> observes s k h" for k
    by (auto simp: is_open_def sub closed_def)
  have resD: "result ?D k = (if k = h \<or> observes s k h then Some (Next d) else result s k)" for k
    by (auto simp: result_def sub closed_def)
  have obsD: "observes ?D ob k \<longleftrightarrow> observes s ob k \<and> k \<noteq> h \<and> \<not> observes s k h" for ob k
    by (auto simp: observes_def sub closed_def)
  have other: "observes s ob k \<Longrightarrow> k \<noteq> h \<Longrightarrow> \<not> observes s ob h \<and> ob \<noteq> h" for ob k
  proof -
    assume a: "observes s ob k" "k \<noteq> h"
    with io have "\<exists>r\<in>set (pending s). req_subject r = k \<and> req_id r = FILE_NOT_FOUND_ID"
      and "Some (h, i) \<noteq> Some (ob, i)"
      unfolding inv_obs_def by blast+
    with nid obs_h show ?thesis by auto
  qed
  have 1: "inv_pending ?D"
    unfolding inv_pending_def
  proof
    fix r assume r: "r \<in> set (pending ?D)"
    then have r': "r \<in> set (pending s)" by (simp add: deliver_frame)
    then have "req_subject r \<in> in_flight s" by (simp add: in_flight_def)
    with nf obs_h have "req_subject r \<noteq> h" "\<not> observes s (req_subject r) h" by auto
    with ip r' show "is_open ?D (req_subject r) \<and> cache ?D (req_id r) = Some (req_subject r)
        \<and> req_id r \<noteq> [] \<and> id_of ?D (req_subject r) = Some (req_id r)"
      by (simp add: inv_pending_def opD deliver_frame deliver_id_of)
  qed
  have 2: "inv_hist ?D"
    using ih by (simp add: inv_hist_def deliver_frame)
  have 3: "inv_obs None ?D"
    unfolding inv_obs_def
  proof (intro allI impI)
    fix k ob
    assume "observes ?D ob k"
    then have a: "observes s ob k" "k \<noteq> h" by (simp_all add: obsD)
    with io have "\<exists>r\<in>set (pending s). req_subject r = k \<and> req_id r = FILE_NOT_FOUND_ID"
      and "ob \<notin> in_flight s" "is_open s ob" "\<exists>j. id_of s ob = Some j \<and> j \<noteq> FILE_NOT_FOUND_ID"
      unfolding inv_obs_def by blast+
    with other[OF a] show "((\<exists>r\<in>set (pending ?D). req_subject r = k \<and> req_id r = FILE_NOT_FOUND_ID)
          \<or> None = Some (k, FILE_NOT_FOUND_ID))
        \<and> ob \<notin> in_flight ?D \<and> is_open ?D ob
        \<and> (\<exists>j. id_of ?D ob = Some j \<and> j \<noteq> FILE_NOT_FOUND_ID)
        \<and> (\<forall>j. None \<noteq> Some (ob, j))"
      by (simp add: deliver_frame deliver_in_flight deliver_id_of opD)
  qed
  have 4: "inv_live None ?D"
    unfolding inv_live_def
  proof (intro allI impI)
    fix k assume "is_open ?D k"
    then have k: "is_open s k" "k \<noteq> h" "\<not> observes s k h" by (simp_all add: opD)
    with il have "k \<in> in_flight s \<or> (\<exists>h'. observes s k h')"
      by (auto simp: inv_live_def)
    then show "k \<in> in_flight ?D \<or> (\<exists>h'. observes ?D k h') \<or> (\<exists>j. None = Some (k, j))"
    proof
      assume "k \<in> in_flight s"
      then show ?thesis by (simp add: deliver_in_flight)
    next
      assume "\<exists>h'. observes s k h'"
      then obtain h' where h': "observes s k h'" ..
      with k have "h' \<noteq> h" by auto
      moreover have "\<not> observes s h' h"
      proof
        assume "observes s h' h"
        then have "h' \<notin> in_flight s" using obs_h by blast
        moreover from io h' have "(\<exists>r\<in>set (pending s). req_subject r = h' \<and> req_id r = FILE_NOT_FOUND_ID)
          \<or> Some (h, i) = Some (h', FILE_NOT_FOUND_ID)"
          unfolding inv_obs_def by blast
        ultimately show False using \<open>h' \<noteq> h\<close> by (auto simp: in_flight_def)
      qed
      ultimately have "observes ?D k h'" using h' by (simp add: obsD)
      then show ?thesis by blast
    qed
  qed
  have 5: "inv_results ?D"
    using ir by (auto simp: inv_results_def resD deliver_stopped split: if_splits)
  have 6: "inv_cache ?D"
    using ic by (simp add: inv_cache_def deliver_frame deliver_id_of)
  have 7: "inv_serving None ?D"
    by (simp add: inv_serving_def)
  from 1 2 3 4 5 6 7 show ?thesis by (simp add: consistent_def)
qed

lemma getDocument_cached:
  "cache (snd (getDocument E url s)) (document_id url) = Some (fst (getDocument E url s))"
  by (cases "cache s (document_id url)")
     (simp_all add: getDocument_hit getDocument_miss Let_def fetchDocument_eq)

lemma document_id_fnf: "document_id FILE_NOT_FOUND_ID = FILE_NOT_FOUND_ID"
  by (simp add: document_id_def FILE_NOT_FOUND_ID_def)

lemma tap_step_id: "tap_step n s = (n, s)"
  by (simp add: tap_step_def split: notification.splits)

lemma consistent_observe:
  assumes consistent: "consistent (Some (h, i)) s" and i: "i \<noteq> FILE_NOT_FOUND_ID"
    and c: "cache s FILE_NOT_FOUND_ID = Some hF"
    and a: "subject_at s hF = Some a" "terminal a = None"
  shows "consistent None (s\<lparr>subjects := (subjects s)[hF := a\<lparr>observers := observers a @ [h]\<rparr>]\<rparr>)"
proof -
  let ?S = "s\<lparr>subjects := (subjects s)[hF := a\<lparr>observers := observers a @ [h]\<rparr>]\<rparr>"
  from consistent have ip: "inv_pending s" and ih: "inv_hist s" and io: "inv_obs (Some (h, i)) s"
    and il: "inv_live (Some (h, i)) s" and ir: "inv_results s" and ic: "inv_cache s"
    and isv: "inv_serving (Some (h, i)) s"
    by (simp_all add: consistent_def)
  from a have hF: "hF < length (subjects s)" "subjects s ! hF = a"
    by (auto simp: subject_at_def split: if_splits)
  from isv have op: "is_open s h" and nf: "h \<notin> in_flight s" and idh: "id_of s h = Some i"
    by (simp_all add: inv_serving_def)
  from ic c have idF: "id_of s hF = Some FILE_NOT_FOUND_ID" by (simp add: inv_cache_def)
  with idh i have ne: "hF \<noteq> h" by auto
  have sub: "subject_at ?S k =
      (if k = hF then Some (a\<lparr>observers := observers a @ [h]\<rparr>) else subject_at s k)" for k
    using hF by (auto simp: subject_at_def)
  have opS: "is_open ?S k = is_open s k" for k
    using a by (auto simp: is_open_def sub)
  have resS: "result ?S k = result s k" for k
    using a by (auto simp: result_def sub)
  have obsS: "observes ?S ob k \<longleftrightarrow> observes s ob k \<or> (k = hF \<and> ob = h)" for ob k
    using a by (auto simp: observes_def sub)
  have opF: "is_open s hF" using a by (simp add: is_open_def)
  have owner: "\<exists>r\<in>set (pending s). req_subject r = hF \<and> req_id r = FILE_NOT_FOUND_ID"
  proof -
    from il opF ne have "hF \<in> in_flight s \<or> (\<exists>h'. observes s hF h')"
      by (auto simp: inv_live_def)
    then show ?thesis
    proof
      assume "hF \<in> in_flight s"
      then obtain r where r: "r \<in> set (pending s)" "req_subject r = hF"
        by (auto simp: in_flight_def)
      with ip have "id_of s hF = Some (req_id r)" by (auto simp: inv_pending_def)
      with idF r show ?thesis by auto
    next
      assume "\<exists>h'. observes s hF h'"
      then obtain h' where "observes s hF h'" ..
      with io have "\<exists>j. id_of s hF = Some j \<and> j \<noteq> FILE_NOT_FOUND_ID"
        unfolding inv_obs_def by blast
      with idF show ?thesis by simp
    qed
  qed
  have 1: "inv_pending ?S"
    using ip by (simp add: inv_pending_def opS frame_simps)
  have 2: "inv_hist ?S"
    using ih by (simp add: inv_hist_def)
  have 3: "inv_obs None ?S"
    unfolding inv_obs_def
  proof (intro allI impI)
    fix k ob
    assume "observes ?S ob k"
    then consider "observes s ob k" | "k = hF" "ob = h" by (auto simp: obsS)
    then show "((\<exists>r\<in>set (pending ?S). req_subject r = k \<and> req_id r = FILE_NOT_FOUND_ID)
          \<or> None = Some (k, FILE_NOT_FOUND_ID))
        \<and> ob \<notin> in_flight ?S \<and> is_open ?S ob
        \<and> (\<exists>j. id_of ?S ob = Some j \<and> j \<noteq> FILE_NOT_FOUND_ID)
        \<and> (\<forall>j. None \<noteq> Some (ob, j))"
    proof cases
      case 1
      with io have "(\<exists>r\<in>set (pending s). req_subject r = k \<and> req_id r = FILE_NOT_FOUND_ID)
          \<or> Some (h, i) = Some (k, FILE_NOT_FOUND_ID)"
        and "ob \<notin> in_flight s" "is_open s ob" "\<exists>j. id_of s ob = Some j \<and> j \<noteq> FILE_NOT_FOUND_ID"
        unfolding inv_obs_def by blast+
      with i show ?thesis by (simp add: opS frame_simps)
    next
      case 2
      with owner nf op idh i show ?thesis by (simp add: opS frame_simps)
    qed
  qed
  have 4: "inv_live None ?S"
    using il by (auto simp: inv_live_def opS obsS frame_simps)
  have 5: "inv_results ?S"
    using ir by (simp add: inv_results_def resS)
  have 6: "inv_cache ?S"
    using ic by (simp add: inv_cache_def frame_simps)
  have 7: "inv_serving None ?S"
    by (simp add: inv_serving_def)
  from 1 2 3 4 5 6 7 show ?thesis by (simp add: consistent_def)
qed

text \<open>The continuation of a request, from the state in which the request has been taken out.\<close>

lemma consistent_on_response:
  assumes consistent: "consistent (Some (req_subject r, req_id r)) s"
  shows "consistent None (on_response E r outcome s)"
proof -
  let ?h = "req_subject r" and ?i = "req_id r"
  let ?n = "map_step E ?i outcome"
  have unfold: "on_response E r outcome s =
      (let (src, s2) = catchError_step E ?i ?n s in subscribe ?h src s2)"
    by (simp add: on_response_def Let_def tap_step_id)
  show ?thesis
  proof (cases ?n)
    case (Next data)
    then have "on_response E r outcome s = deliver (Next data) [?h] s"
      by (simp add: unfold catchError_step_def subscribe_def)
    with consistent show ?thesis by (simp add: consistent_deliver)
  next
    case (Error e)
    show ?thesis
    proof (cases "status e = Some 404")
      case False
      let ?s2 = "snd (getErrorDoc ?i e s)"
      have "?s2 = (s\<lparr>cache := (cache s)(?i := None)\<rparr>)\<lparr>logged := logged ?s2\<rparr>"
        by (simp add: getErrorDoc_def Let_def)
      then have "consistent (Some (?h, ?i)) ?s2"
        using consistent_evict[OF consistent] consistent_logged[where sv = "Some (?h, ?i)" and s = "s\<lparr>cache := (cache s)(?i := None)\<rparr>" and l = "logged ?s2"]
        by simp
      moreover have "on_response E r outcome s =
          deliver (Next \<lparr>doc_id = FETCHING_ERROR_ID, contents = Markup FETCHING_ERROR_CONTENTS\<rparr>) [?h] ?s2"
        using Error False by (simp add: unfold catchError_step_def subscribe_def getErrorDoc_def Let_def)
      ultimately show ?thesis by (simp add: consistent_deliver)
    next
      case nf: True
      show ?thesis
      proof (cases "?i = FILE_NOT_FOUND_ID")
        case True
        then have "on_response E r outcome s =
            deliver (Next \<lparr>doc_id = FILE_NOT_FOUND_ID, contents = Markup ''Document not found''\<rparr>) [?h] s"
          using Error nf by (simp add: unfold catchError_step_def subscribe_def getFileNotFoundDoc_def)
        with consistent show ?thesis by (simp add: consistent_deliver)
      next
        case False
        let ?s1 = "s\<lparr>logged := logged s
            @ [LogError (''Document file not found at '' @ quoted (CHR 0x27) ?i)]\<rparr>"
        let ?g = "getDocument E FILE_NOT_FOUND_ID ?s1"
        have w1: "consistent (Some (?h, ?i)) ?s1" using consistent by (simp add: consistent_logged)
        have w2: "consistent (Some (?h, ?i)) (snd ?g)"
          using w1 False by (intro consistent_getDocument) (simp_all add: document_id_fnf)
        have c2: "cache (snd ?g) FILE_NOT_FOUND_ID = Some (fst ?g)"
          using getDocument_cached[of E FILE_NOT_FOUND_ID ?s1] by (simp add: document_id_fnf)
        have eq: "on_response E r outcome s = subscribe ?h (Shared (fst ?g)) (snd ?g)"
          using Error nf False
          by (simp add: unfold catchError_step_def getFileNotFoundDoc_def Let_def split_beta)
        from w2 have ic: "inv_cache (snd ?g)" and ih: "inv_hist (snd ?g)"
          and ir: "inv_results (snd ?g)" by (simp_all add: consistent_def)
        from ic c2 have "id_of (snd ?g) (fst ?g) = Some FILE_NOT_FOUND_ID"
          by (simp add: inv_cache_def)
        then have "fst ?g < length (subjects (snd ?g))"
          using ih by (auto simp: inv_hist_def dest: id_of_lt)
        then obtain a where a: "subject_at (snd ?g) (fst ?g) = Some a"
          by (simp add: subject_at_def)
        show ?thesis
        proof (cases "terminal a")
          case None
          with a have "on_response E r outcome s =
              (snd ?g)\<lparr>subjects := (subjects (snd ?g))[fst ?g := a\<lparr>observers := observers a @ [?h]\<rparr>]\<rparr>"
            by (simp add: eq subscribe_def)
          with consistent_observe[OF w2 False c2 a None] show ?thesis by simp
        next
          case (Some n)
          with a have "result (snd ?g) (fst ?g) = Some n" by (simp add: result_def)
          with ir obtain d where "n = Next d" by (auto simp: inv_results_def)
          with a Some have "on_response E r outcome s = deliver (Next d) [?h] (snd ?g)"
            by (simp add: eq subscribe_def)
          with w2 show ?thesis by (simp add: consistent_deliver)
        qed
      qed
    qed
  qed
qed

lemma consistent_respond: "consistent None s \<Longrightarrow> consistent None (respond E h outcome s)"
proof (cases "find (\<lambda>r. req_subject r = h) (pending s)")
  case None
  then show "consistent None s \<Longrightarrow> ?thesis" by (simp add: respond_def)
next
  case (Some r)
  assume consistent: "consistent None s"
  from Some have r: "r \<in> set (pending s)" "req_subject r = h" by (auto dest: find_pending)
  from consistent_remove[OF consistent r(1)] r(2)
  have "consistent (Some (req_subject r, req_id r))
      (s\<lparr>pending := filter (\<lambda>r'. req_subject r' \<noteq> h) (pending s)\<rparr>)" by simp
  then show ?thesis using Some by (simp add: respond_def consistent_on_response)
qed

lemma consistent_notify_stream: "consistent None s \<Longrightarrow> consistent None (notify_stream (Next d) s)"
  by (simp add: notify_stream_def consistent_def inv_defs frame_simps)

lemma consistent_navigate: "consistent None s \<Longrightarrow> consistent None (navigate E path s)"
proof -
  assume consistent: "consistent None s"
  let ?g = "getDocument E path s"
  have w: "consistent None (snd ?g)" using consistent by (simp add: consistent_getDocument)
  then have w2: "consistent None ((snd ?g)\<lparr>inner := Some (fst ?g)\<rparr>)" by (simp add: consistent_inner)
  show ?thesis
  proof (cases "result ((snd ?g)\<lparr>inner := Some (fst ?g)\<rparr>) (fst ?g)")
    case None
    with w2 consistent show ?thesis by (simp add: navigate_def Let_def split_beta)
  next
    case (Some n)
    from w2 have "inv_results ((snd ?g)\<lparr>inner := Some (fst ?g)\<rparr>)" by (simp add: consistent_def)
    with Some obtain d where "n = Next d" unfolding inv_results_def by blast
    with Some w2 consistent show ?thesis
      by (simp add: navigate_def Let_def split_beta consistent_notify_stream)
  qed
qed

lemma consistent_step: "consistent None s \<Longrightarrow> consistent None (step E e s)"
  by (cases e) (simp_all add: consistent_navigate consistent_getDocument consistent_respond)

lemma consistent_run: "consistent None s \<Longrightarrow> consistent None (run E evs s)"
  by (induction evs arbitrary: s) (simp_all add: consistent_step)

lemma consistent_reachable: "consistent None (run E evs init)"
  by (simp add: consistent_run consistent_init)

section \<open>Evaluation on examples\<close>

lemmas eval_defs = init_def getDocument_def document_id_def fetchDocument_def Let_def
  request_path_def source_doc_def indexMap_get_def indexMap_def objectPrototypeMethods_def
  placeholders_def demo_env_def DOC_CONTENT_URL_PREFIX_def CONTENT_URL_PREFIX_def respond_def
  on_response_def map_step_def tap_step_def catchError_step_def subscribe_def subject_at_def
  is_open_def settle_def notify_stream_def navigate_def result_def getFileNotFoundDoc_def
  getErrorDoc_def FILE_NOT_FOUND_ID_def FETCHING_ERROR_ID_def quoted_def deliver.simps

section \<open>The resolver\<close>

text \<open>
  For an id that is neither \<^verbatim>\<open>__proto__\<close> nor the name of a method of
  \<^verbatim>\<open>Object.prototype\<close>, the source document is the alias when the id is a key
  of the index map, \<^verbatim>\<open>placeholder\<close> when it is one of the placeholders, and the
  id itself otherwise.
\<close>

lemma source_doc_own_properties:
  assumes "ident \<noteq> ''__proto__''" "ident \<notin> set objectPrototypeMethods"
  shows "source_doc E ident =
    (case map_of indexMap ident of
       Some v \<Rightarrow> v
     | None \<Rightarrow> if ident \<in> set placeholders then ''placeholder'' else ident)"
  using assms
  apply (simp add: source_doc_def indexMap_get_def split: option.splits)
  apply (auto simp: indexMap_def placeholders_def split: if_splits)
  done

lemma document_id_empty: "document_id [] = ''index''"
  by (simp add: document_id_def)

text \<open>
  C3. The claim: an empty path resolves to \<^verbatim>\<open>index\<close>; the source document is the
  alias, \<^verbatim>\<open>placeholder\<close> or the id itself; the request path is the base href,
  \<^verbatim>\<open>content/docs/\<close>, the source document and \<^verbatim>\<open>.md\<close>. The code reads the alias
  with \<^verbatim>\<open>indexMap[id]\<close>, which also finds inherited properties: for the path
  \<^verbatim>\<open>__proto__\<close>, which is not a key of the alias table and not a placeholder, the
  request goes to \<^verbatim>\<open>content/docs/[object Object].md\<close> and not to
  \<^verbatim>\<open>content/docs/__proto__.md\<close>.
\<close>

theorem inherited_name_request_path:
  "request_path E ''__proto__'' = baseHref E @ ''content/docs/[object Object].md''
   \<and> request_path E ''__proto__'' \<noteq> baseHref E @ ''content/docs/'' @ ''__proto__'' @ ''.md''
   \<and> map req_path (pending (step E (Navigate ''__proto__'') init))
       = [baseHref E @ ''content/docs/[object Object].md'']"
  by (simp add: eval_defs)

section \<open>The validation step\<close>

text \<open>
  C10. On a successful response the value that the validation step inspects is
  the object built by the preceding \<^verbatim>\<open>map\<close>; the test
  \<^verbatim>\<open>!data || typeof data !== 'object'\<close> is false for it, the step passes every
  notification on unchanged and never logs, and whatever the compiler returned,
  \<^verbatim>\<open>null\<close> and \<^verbatim>\<open>undefined\<close> included, is delivered as the contents of the
  document.
\<close>

theorem validation_never_fails:
  "(\<not> (\<not> truthy (Obj data) \<or> typeof (Obj data) \<noteq> ''object''))
   \<and> tap_step n s = (n, s)
   \<and> (compile E raw = Inr v \<longrightarrow>
        on_response E r (Next raw) s
          = deliver (Next \<lparr>doc_id = req_id r, contents = v\<rparr>) [req_subject r] s)"
  by (simp add: tap_step_id on_response_def map_step_def catchError_step_def subscribe_def)

theorem validation_never_fails_witness:
  "compile demo_env [] = Inr MNull
   \<and> on_response demo_env \<lparr>req_subject = 0, req_id = ''a'', req_path = ''/content/docs/a.md''\<rparr>
        (Next []) (step demo_env (GetDocument ''a'') init)
      = deliver (Next \<lparr>doc_id = ''a'', contents = MNull\<rparr>) [0]
          (step demo_env (GetDocument ''a'') init)"
proof -
  have c: "compile demo_env [] = Inr MNull" by (simp add: demo_env_def)
  with validation_never_fails[where E = demo_env and raw = "[]" and v = MNull
      and r = "\<lparr>req_subject = 0, req_id = ''a'', req_path = ''/content/docs/a.md''\<rparr>"
      and s = "step demo_env (GetDocument ''a'') init"]
  show ?thesis by simp
qed

text \<open>
  C8. The claim: when the compiler's output is not a non-null structured value, a
  transform failure is signalled and handled as a generic failure. In the code
  the test sits after the \<^verbatim>\<open>map\<close> that wraps the output: when the compiler
  returns \<^verbatim>\<open>null\<close> for the document \<^verbatim>\<open>a\<close>, the document with contents
  \<^verbatim>\<open>null\<close> is delivered, the cache keeps the entry and nothing is logged as
  invalid or as an error.
\<close>

theorem null_render_is_delivered:
  "(let s = run demo_env [GetDocument ''a'', Response 0 (Next [])] init
    in compile demo_env [] = Inr MNull
       \<and> result s 0 = Some (Next \<lparr>doc_id = ''a'', contents = MNull\<rparr>)
       \<and> cache s ''a'' = Some 0
       \<and> logged s = [Log ''getting document'' (Str ''a''),
                      Log ''fetching document from'' (Str ''/content/docs/a.md'')])"
  by (simp add: eval_defs)

section \<open>The four ways a response is handled\<close>

lemma on_response_next:
  "map_step E (req_id r) outcome = Next d \<Longrightarrow>
   on_response E r outcome s = deliver (Next d) [req_subject r] s"
  by (simp add: on_response_def tap_step_id catchError_step_def subscribe_def)

lemma on_response_error:
  "map_step E (req_id r) outcome = Error e \<Longrightarrow> status e \<noteq> Some 404 \<Longrightarrow>
   on_response E r outcome s =
     deliver (Next error_doc) [req_subject r] (snd (getErrorDoc (req_id r) e s))"
  by (simp add: on_response_def tap_step_id catchError_step_def subscribe_def getErrorDoc_def
      Let_def error_doc_def)

lemma on_response_not_found_itself:
  "map_step E (req_id r) outcome = Error e \<Longrightarrow> status e = Some 404 \<Longrightarrow>
   req_id r = FILE_NOT_FOUND_ID \<Longrightarrow>
   on_response E r outcome s = deliver (Next not_found_doc) [req_subject r] s"
  by (simp add: on_response_def tap_step_id catchError_step_def subscribe_def
      getFileNotFoundDoc_def not_found_doc_def)

lemma on_response_not_found:
  "map_step E (req_id r) outcome = Error e \<Longrightarrow> status e = Some 404 \<Longrightarrow>
   req_id r \<noteq> FILE_NOT_FOUND_ID \<Longrightarrow>
   on_response E r outcome s =
     (let g = getDocument E FILE_NOT_FOUND_ID
                (s\<lparr>logged := logged s
                     @ [LogError (''Document file not found at '' @ quoted (CHR 0x27) (req_id r))]\<rparr>)
      in subscribe (req_subject r) (Shared (fst g)) (snd g))"
  by (simp add: on_response_def tap_step_id catchError_step_def getFileNotFoundDoc_def Let_def
      split_beta)

lemma pending_unique:
  assumes "consistent None s" "r \<in> set (pending s)" "r' \<in> set (pending s)"
    "req_subject r' = req_subject r"
  shows "r' = r"
proof -
  from assms(1) have "distinct (map req_subject (pending s))" by (simp add: consistent_def inv_hist_def)
  then have "inj_on req_subject (set (pending s))" by (simp add: distinct_map)
  with assms(2-4) show ?thesis by (auto dest: inj_onD)
qed

lemma respond_pending:
  assumes consistent: "consistent None s" and r: "r \<in> set (pending s)"
  shows "respond E (req_subject r) outcome s = on_response E r outcome (taken (req_subject r) s)"
proof -
  from r obtain r' where f: "find (\<lambda>x. req_subject x = req_subject r) (pending s) = Some r'"
    by (cases "find (\<lambda>x. req_subject x = req_subject r) (pending s)") (auto simp: find_None_iff)
  then have "r' \<in> set (pending s)" "req_subject r' = req_subject r" by (auto dest: find_pending)
  with consistent r have "r' = r" by (auto intro: pending_unique)
  with f show ?thesis by (simp add: respond_def taken_def)
qed

lemma consistent_taken:
  "consistent None s \<Longrightarrow> r \<in> set (pending s) \<Longrightarrow> consistent (Some (req_subject r, req_id r)) (taken (req_subject r) s)"
  unfolding taken_def by (rule consistent_remove)

lemma result_deliver_served:
  "consistent (Some (h, i)) s \<Longrightarrow> result (deliver n [h] s) h = Some n"
  by (simp add: result_def deliver_served closed_def)

lemma taken_frame:
  "cache (taken h s) = cache s" "requests (taken h s) = requests s"
  "logged (taken h s) = logged s" "subjects (taken h s) = subjects s"
  "inner (taken h s) = inner s" "emitted (taken h s) = emitted s"
  by (simp_all add: taken_def)

lemma pending_facts:
  assumes "consistent None s" "r \<in> set (pending s)"
  shows "is_open s (req_subject r)" "cache s (req_id r) = Some (req_subject r)"
    "req_id r \<noteq> []" "document_id (req_id r) = req_id r"
  using assms by (auto simp: consistent_def inv_pending_def document_id_def)

text \<open>The request paths\<close>

lemma inv_path_getDocument: "inv_path E s \<Longrightarrow> inv_path E (snd (getDocument E url s))"
  by (cases "cache s (document_id url)")
     (auto simp: getDocument_hit getDocument_miss fetchDocument_eq Let_def inv_path_def)

lemma inv_path_frame:
  "set (pending t) \<subseteq> set (pending s) \<Longrightarrow> requests t = requests s \<Longrightarrow> inv_path E s \<Longrightarrow> inv_path E t"
  by (auto simp: inv_path_def)

lemma inv_path_subscribe: "inv_path E s \<Longrightarrow> inv_path E (subscribe h src s)"
  by (rule inv_path_frame[of _ s])
     (auto simp: subscribe_def deliver_frame split: source.splits option.splits)

lemma inv_path_on_response: "inv_path E s \<Longrightarrow> inv_path E (on_response E r outcome s)"
proof -
  assume a: "inv_path E s"
  show ?thesis
  proof (cases "map_step E (req_id r) outcome")
    case (Next d)
    with a show ?thesis by (auto simp: on_response_next deliver_frame intro: inv_path_frame[of _ s])
  next
    case (Error e)
    show ?thesis
    proof (cases "status e = Some 404")
      case False
      with Error a show ?thesis
        by (auto simp: on_response_error deliver_frame getErrorDoc_def Let_def
            intro: inv_path_frame[of _ s])
    next
      case True
      show ?thesis
      proof (cases "req_id r = FILE_NOT_FOUND_ID")
        case t: True
        with Error True a show ?thesis
          by (auto simp: on_response_not_found_itself deliver_frame intro: inv_path_frame[of _ s])
      next
        case False
        have "inv_path E (s\<lparr>logged := l\<rparr>)" for l using a by (simp add: inv_path_def)
        with Error True False show ?thesis
          by (simp add: on_response_not_found Let_def inv_path_subscribe inv_path_getDocument)
      qed
    qed
  qed
qed

lemma inv_path_step: "inv_path E s \<Longrightarrow> inv_path E (step E e s)"
proof (cases e)
  case (Navigate p)
  assume a: "inv_path E s"
  have "inv_path E (navigate E p s)"
    unfolding navigate_def Let_def split_beta
    using a inv_path_getDocument[OF a, of p]
    by (auto simp: inv_path_def notify_stream_def split: option.splits notification.splits)
  with Navigate show ?thesis by simp
next
  case (GetDocument u)
  assume "inv_path E s"
  with GetDocument show ?thesis by (simp add: inv_path_getDocument)
next
  case (Response h outcome)
  assume a: "inv_path E s"
  then have "inv_path E (taken h' s)" for h' by (auto simp: inv_path_def taken_def)
  with a Response show ?thesis
    by (auto simp: respond_def inv_path_on_response taken_def split: option.splits)
qed

lemma inv_path_run: "inv_path E s \<Longrightarrow> inv_path E (run E evs s)"
  by (induction evs arbitrary: s) (simp_all add: inv_path_step)

lemma inv_path_reachable: "inv_path E (run E evs init)"
  by (rule inv_path_run) (simp add: inv_path_def init_def)

section \<open>Successful fetches\<close>

text \<open>
  C4. Take any reachable state and any request \<open>r\<close> in flight in it, issued for
  the id \<open>req_id r\<close>. The request went to the path resolved for that id, its
  subject is the one \<^verbatim>\<open>getDocument\<close> returns for the id, and it is still open.
  When the transport answers with a text and the compiler returns \<open>v\<close> for it,
  the subject completes with the document whose id is the requested id (not the
  source document the id was resolved to) and whose contents are \<open>v\<close>; the
  cache keeps the entry and no further request is made.
\<close>

theorem success_document:
  assumes "r \<in> set (pending (run E evs init))" and "compile E raw = Inr v"
  shows "(let s = run E evs init; h = req_subject r;
              s' = step E (Response h (Next raw)) s
          in req_path r = request_path E (req_id r)
             \<and> fst (getDocument E (req_id r) s) = h
             \<and> result s h = None
             \<and> result s' h = Some (Next \<lparr>doc_id = req_id r, contents = v\<rparr>)
             \<and> cache s' (req_id r) = Some h
             \<and> requests s' = requests s)"
proof -
  let ?s = "run E evs init"
  let ?h = "req_subject r"
  have consistent: "consistent None ?s" by (rule consistent_reachable)
  note pf = pending_facts[OF consistent assms(1)]
  have m: "map_step E (req_id r) (Next raw) = Next \<lparr>doc_id = req_id r, contents = v\<rparr>"
    using assms(2) by (simp add: map_step_def)
  have st: "step E (Response ?h (Next raw)) ?s
      = deliver (Next \<lparr>doc_id = req_id r, contents = v\<rparr>) [?h] (taken ?h ?s)"
    by (simp add: respond_pending[OF consistent assms(1)] on_response_next[OF m])
  have 1: "req_path r = request_path E (req_id r)"
    using inv_path_reachable[of E evs] assms(1) by (simp add: inv_path_def)
  have 2: "fst (getDocument E (req_id r) ?s) = ?h"
    using pf by (simp add: getDocument_hit)
  have 3: "result ?s ?h = None"
    using pf(1) by (auto simp: is_open_def result_def split: option.splits)
  have 4: "result (step E (Response ?h (Next raw)) ?s) ?h
      = Some (Next \<lparr>doc_id = req_id r, contents = v\<rparr>)"
    unfolding st by (rule result_deliver_served[OF consistent_taken[OF consistent assms(1)]])
  have 5: "cache (step E (Response ?h (Next raw)) ?s) (req_id r) = Some ?h"
    unfolding st using pf(2) by (simp add: deliver_frame taken_frame)
  have 6: "requests (step E (Response ?h (Next raw)) ?s) = requests ?s"
    unfolding st by (simp add: deliver_frame taken_frame)
  from 1 2 3 4 5 6 show ?thesis by (simp add: Let_def)
qed

text \<open>
  The alias \<^verbatim>\<open>guide/store\<close>: fetched from \<^verbatim>\<open>guide/store/index.md\<close>, delivered
  under the id \<^verbatim>\<open>guide/store\<close>.
\<close>

theorem success_document_witness:
  "(let r = \<lparr>req_subject = 0, req_id = ''guide/store'', req_path = ''/content/docs/guide/store/index.md''\<rparr>;
        s = run demo_env [Navigate ''guide/store''] init;
        s' = step demo_env (Response 0 (Next ''# Store'')) s
    in r \<in> set (pending s) \<and> compile demo_env ''# Store'' = Inr (Markup ''<p># Store</p>'')
       \<and> req_path r = request_path demo_env ''guide/store''
       \<and> result s' 0 = Some (Next \<lparr>doc_id = ''guide/store'', contents = Markup ''<p># Store</p>''\<rparr>)
       \<and> cache s' ''guide/store'' = Some 0)"
proof -
  let ?r = "\<lparr>req_subject = 0, req_id = ''guide/store'', req_path = ''/content/docs/guide/store/index.md''\<rparr>"
  have a: "?r \<in> set (pending (run demo_env [Navigate ''guide/store''] init))"
    by (simp add: eval_defs)
  have b: "compile demo_env ''# Store'' = Inr (Markup ''<p># Store</p>'')"
    by (simp add: demo_env_def)
  from success_document[OF a b] a b show ?thesis by (simp add: Let_def)
qed

lemma getErrorDoc_frame:
  "cache (snd (getErrorDoc i e s)) = (cache s)(i := None)"
  "requests (snd (getErrorDoc i e s)) = requests s"
  "pending (snd (getErrorDoc i e s)) = pending s"
  "subjects (snd (getErrorDoc i e s)) = subjects s"
  "logged (snd (getErrorDoc i e s)) = logged s
     @ [LogError (''Error fetching document '' @ quoted (CHR 0x27) i @ '': ('' @ message e @ '')'')]"
  by (simp_all add: getErrorDoc_def Let_def)

lemma consistent_getErrorDoc: "consistent (Some (h, i)) s \<Longrightarrow> consistent (Some (h, i)) (snd (getErrorDoc i e s))"
proof -
  assume consistent: "consistent (Some (h, i)) s"
  let ?s2 = "snd (getErrorDoc i e s)"
  have "?s2 = (s\<lparr>cache := (cache s)(i := None)\<rparr>)\<lparr>logged := logged ?s2\<rparr>"
    by (simp add: getErrorDoc_def Let_def)
  then show ?thesis
    using consistent_evict[OF consistent]
      consistent_logged[where sv = "Some (h, i)" and s = "s\<lparr>cache := (cache s)(i := None)\<rparr>"
        and l = "logged ?s2"]
    by simp
qed

section \<open>Generic failures\<close>

text \<open>
  C5. Take any reachable state and any request \<open>r\<close> in flight in it. When the
  transport fails with an error whose status is not 404, the subject of the
  request completes with the fetching-error document, the id's cache entry
  (which pointed to that subject) is removed, and the handler does not call
  \<^verbatim>\<open>getDocument\<close>: no request is issued and the only log entry is the error.
  The next \<^verbatim>\<open>getDocument\<close> for the id creates a new subject and issues a new
  request for the id's path.
\<close>

theorem generic_failure_evicts:
  assumes "r \<in> set (pending (run E evs init))" and "status e \<noteq> Some 404"
  shows "(let s = run E evs init; h = req_subject r;
              s' = step E (Response h (Error e)) s;
              g = getDocument E (req_id r) s'
          in result s' h
               = Some (Next \<lparr>doc_id = FETCHING_ERROR_ID, contents = Markup FETCHING_ERROR_CONTENTS\<rparr>)
             \<and> cache s (req_id r) = Some h
             \<and> cache s' (req_id r) = None
             \<and> requests s' = requests s
             \<and> pending s' = filter (\<lambda>x. req_subject x \<noteq> h) (pending s)
             \<and> logged s' = logged s
                 @ [LogError (''Error fetching document '' @ quoted (CHR 0x27) (req_id r)
                              @ '': ('' @ message e @ '')'')]
             \<and> fst g \<noteq> h
             \<and> requests (snd g) = requests s'
                 @ [\<lparr>req_subject = fst g, req_id = req_id r, req_path = request_path E (req_id r)\<rparr>]
             \<and> pending (snd g) = pending s'
                 @ [\<lparr>req_subject = fst g, req_id = req_id r, req_path = request_path E (req_id r)\<rparr>])"
proof -
  let ?s = "run E evs init"
  let ?h = "req_subject r"
  let ?t = "snd (getErrorDoc (req_id r) e (taken ?h ?s))"
  let ?s' = "respond E ?h (Error e) ?s"
  have consistent: "consistent None ?s" by (rule consistent_reachable)
  note pf = pending_facts[OF consistent assms(1)]
  have m: "map_step E (req_id r) (Error e) = Error e" by (simp add: map_step_def)
  have st: "?s' = deliver (Next error_doc) [?h] ?t"
    by (simp add: respond_pending[OF consistent assms(1)] on_response_error[OF m assms(2)])
  have wt: "consistent (Some (?h, req_id r)) ?t"
    by (rule consistent_getErrorDoc[OF consistent_taken[OF consistent assms(1)]])
  have 1: "result ?s' ?h = Some (Next error_doc)"
    unfolding st by (rule result_deliver_served[OF wt])
  have 2: "cache ?s' (req_id r) = None"
    unfolding st by (simp add: deliver_frame getErrorDoc_frame)
  have 3: "requests ?s' = requests ?s"
    unfolding st by (simp add: deliver_frame getErrorDoc_frame taken_frame)
  have 4: "pending ?s' = filter (\<lambda>x. req_subject x \<noteq> ?h) (pending ?s)"
    unfolding st by (simp add: deliver_frame getErrorDoc_frame) (simp add: taken_def)
  have 5: "logged ?s' = logged ?s
      @ [LogError (''Error fetching document '' @ quoted (CHR 0x27) (req_id r)
                   @ '': ('' @ message e @ '')'')]"
    unfolding st by (simp add: deliver_frame getErrorDoc_frame taken_frame)
  have len: "length (subjects ?s') = length (subjects ?s)"
    unfolding st by (simp add: deliver_frame getErrorDoc_frame taken_frame)
  have g: "getDocument E (req_id r) ?s' =
     (let s1 = ?s'\<lparr>logged := logged ?s' @ [Log ''getting document'' (Str (req_id r))]\<rparr>;
          s2 = snd (fetchDocument E (req_id r) s1)
      in (length (subjects ?s'), s2\<lparr>cache := (cache s2)(req_id r \<mapsto> length (subjects ?s'))\<rparr>))"
    using getDocument_miss[of ?s' "req_id r" E] 2 pf(4) by simp
  have hlt: "?h < length (subjects ?s)" using pf(1) by (rule is_open_lt)
  have 6: "fst (getDocument E (req_id r) ?s') \<noteq> ?h"
    using hlt len by (simp add: g Let_def)
  have 7: "requests (snd (getDocument E (req_id r) ?s')) = requests ?s'
      @ [\<lparr>req_subject = fst (getDocument E (req_id r) ?s'), req_id = req_id r,
           req_path = request_path E (req_id r)\<rparr>]"
    by (simp add: g Let_def fetchDocument_eq)
  have 8: "pending (snd (getDocument E (req_id r) ?s')) = pending ?s'
      @ [\<lparr>req_subject = fst (getDocument E (req_id r) ?s'), req_id = req_id r,
           req_path = request_path E (req_id r)\<rparr>]"
    by (simp add: g Let_def fetchDocument_eq)
  from 1 2 3 4 5 6 7 8 pf(2) show ?thesis by (simp add: Let_def error_doc_def)
qed

text \<open>
  The document \<^verbatim>\<open>a\<close>, answered with status 500.
\<close>

theorem generic_failure_evicts_witness:
  "\<lparr>req_subject = 0, req_id = ''a'', req_path = ''/content/docs/a.md''\<rparr>
      \<in> set (pending (run demo_env [Navigate ''a''] init))
   \<and> status (HttpErrorResponse 500 ''Server Error'') \<noteq> Some 404
   \<and> result (step demo_env (Response 0 (Error (HttpErrorResponse 500 ''Server Error'')))
         (run demo_env [Navigate ''a''] init)) 0
       = Some (Next \<lparr>doc_id = FETCHING_ERROR_ID, contents = Markup FETCHING_ERROR_CONTENTS\<rparr>)
   \<and> cache (step demo_env (Response 0 (Error (HttpErrorResponse 500 ''Server Error'')))
         (run demo_env [Navigate ''a''] init)) ''a'' = None
   \<and> fst (getDocument demo_env ''a''
         (step demo_env (Response 0 (Error (HttpErrorResponse 500 ''Server Error'')))
            (run demo_env [Navigate ''a''] init))) \<noteq> 0"
proof -
  let ?r = "\<lparr>req_subject = 0, req_id = ''a'', req_path = ''/content/docs/a.md''\<rparr>"
  have a: "?r \<in> set (pending (run demo_env [Navigate ''a''] init))"
    by (simp add: eval_defs)
  have b: "status (HttpErrorResponse 500 ''Server Error'') \<noteq> Some 404" by simp
  from generic_failure_evicts[OF a b] a b show ?thesis by (simp add: Let_def)
qed

section \<open>The not-found document\<close>

text \<open>
  C7. The claim as stated: resolving \<^verbatim>\<open>FILE_NOT_FOUND_ID\<close> always yields the
  completed document with contents \<^verbatim>\<open>Document not found\<close>, without a transport
  call and without touching the cache. It fails for \<^verbatim>\<open>getDocument\<close>: the call
  issues a request for \<^verbatim>\<open>content/docs/file-not-found.md\<close>, stores the open subject
  in the cache, and when the transport answers with a text the document carries
  the compiled text.
\<close>

theorem not_found_id_is_fetched:
  "map req_path (requests (step demo_env (GetDocument FILE_NOT_FOUND_ID) init))
      = [''/content/docs/file-not-found.md'']
   \<and> cache (step demo_env (GetDocument FILE_NOT_FOUND_ID) init) FILE_NOT_FOUND_ID = Some 0
   \<and> result (step demo_env (GetDocument FILE_NOT_FOUND_ID) init) 0 = None
   \<and> result (run demo_env [GetDocument FILE_NOT_FOUND_ID, Response 0 (Next ''Gone'')] init) 0
      = Some (Next \<lparr>doc_id = FILE_NOT_FOUND_ID, contents = Markup ''<p>Gone</p>''\<rparr>)
   \<and> result (run demo_env [GetDocument FILE_NOT_FOUND_ID, Response 0 (Next ''Gone'')] init) 0
      \<noteq> Some (Next \<lparr>doc_id = FILE_NOT_FOUND_ID, contents = Markup ''Document not found''\<rparr>)"
  by (simp add: eval_defs)

text \<open>
  C7, amended. The not-found branch for the id \<^verbatim>\<open>FILE_NOT_FOUND_ID\<close> returns the
  completed document with contents \<^verbatim>\<open>Document not found\<close> and leaves the state as
  it is. So when the request for the not-found document is itself answered with
  404, its subject completes with that document, and no request is issued, the
  cache is not touched and nothing is logged.
\<close>

theorem not_found_of_not_found:
  assumes "r \<in> set (pending (run E evs init))" and "req_id r = FILE_NOT_FOUND_ID"
    and "status e = Some 404"
  shows "(let s = run E evs init; h = req_subject r;
              s' = step E (Response h (Error e)) s
          in getFileNotFoundDoc E FILE_NOT_FOUND_ID s
               = (Of \<lparr>doc_id = FILE_NOT_FOUND_ID, contents = Markup ''Document not found''\<rparr>, s)
             \<and> result s' h
               = Some (Next \<lparr>doc_id = FILE_NOT_FOUND_ID, contents = Markup ''Document not found''\<rparr>)
             \<and> requests s' = requests s
             \<and> cache s' = cache s
             \<and> logged s' = logged s)"
proof -
  let ?s = "run E evs init"
  let ?h = "req_subject r"
  let ?s' = "respond E ?h (Error e) ?s"
  have consistent: "consistent None ?s" by (rule consistent_reachable)
  have m: "map_step E (req_id r) (Error e) = Error e" by (simp add: map_step_def)
  have st: "?s' = deliver (Next not_found_doc) [?h] (taken ?h ?s)"
    by (simp add: respond_pending[OF consistent assms(1)] on_response_not_found_itself[OF m assms(3,2)])
  have 1: "result ?s' ?h = Some (Next not_found_doc)"
    unfolding st by (rule result_deliver_served[OF consistent_taken[OF consistent assms(1)]])
  have 2: "requests ?s' = requests ?s" "cache ?s' = cache ?s" "logged ?s' = logged ?s"
    unfolding st by (simp_all add: deliver_frame taken_frame)
  from 1 2 show ?thesis by (simp add: Let_def not_found_doc_def getFileNotFoundDoc_def)
qed

text \<open>
  The request for the not-found document, answered with status 404.
\<close>

theorem not_found_of_not_found_witness:
  "\<lparr>req_subject = 0, req_id = FILE_NOT_FOUND_ID, req_path = ''/content/docs/file-not-found.md''\<rparr>
      \<in> set (pending (run demo_env [GetDocument FILE_NOT_FOUND_ID] init))
   \<and> status (HttpErrorResponse 404 ''Not Found'') = Some 404
   \<and> result (step demo_env (Response 0 (Error (HttpErrorResponse 404 ''Not Found'')))
         (run demo_env [GetDocument FILE_NOT_FOUND_ID] init)) 0
       = Some (Next \<lparr>doc_id = FILE_NOT_FOUND_ID, contents = Markup ''Document not found''\<rparr>)
   \<and> requests (step demo_env (Response 0 (Error (HttpErrorResponse 404 ''Not Found'')))
         (run demo_env [GetDocument FILE_NOT_FOUND_ID] init))
       = requests (run demo_env [GetDocument FILE_NOT_FOUND_ID] init)"
proof -
  let ?r = "\<lparr>req_subject = 0, req_id = FILE_NOT_FOUND_ID, req_path = ''/content/docs/file-not-found.md''\<rparr>"
  have a: "?r \<in> set (pending (run demo_env [GetDocument FILE_NOT_FOUND_ID] init))"
    by (simp add: eval_defs)
  have b: "req_id ?r = FILE_NOT_FOUND_ID" by simp
  have c: "status (HttpErrorResponse 404 ''Not Found'') = Some 404" by simp
  from not_found_of_not_found[OF a b c] a c show ?thesis by (simp add: Let_def)
qed

section \<open>What a step keeps\<close>

lemma result_Some_lt: "result s h = Some n \<Longrightarrow> h < length (subjects s)"
  by (auto simp: result_def subject_at_def split: option.splits if_splits)

lemma result_Some_closed: "result s h = Some n \<Longrightarrow> \<not> is_open s h"
  by (auto simp: result_def is_open_def split: option.splits)

lemma getDocument_subjects:
  "subjects (snd (getDocument E url s)) = subjects s
   \<or> subjects (snd (getDocument E url s)) = subjects s @ [fresh]"
  by (cases "cache s (document_id url)")
     (simp_all add: getDocument_hit getDocument_miss fetchDocument_eq Let_def)

lemma subject_at_getDocument:
  "h < length (subjects s) \<Longrightarrow> subject_at (snd (getDocument E url s)) h = subject_at s h"
  using getDocument_subjects[of E url s] by (auto simp: subject_at_def nth_append)

lemma result_getDocument:
  "result s h = Some n \<Longrightarrow> result (snd (getDocument E url s)) h = Some n"
  by (frule result_Some_lt) (simp add: result_def subject_at_getDocument)

lemma result_deliver_closed:
  "result s h = Some n \<Longrightarrow> result (deliver m hs s) h = Some n"
  by (frule result_Some_closed) (simp add: result_def deliver_closed)

lemma result_subscribe:
  "result s h = Some n \<Longrightarrow> result (subscribe k src s) h = Some n"
proof (cases src)
  case (Of d)
  assume "result s h = Some n"
  with Of show ?thesis by (simp add: subscribe_def result_deliver_closed)
next
  case (Shared hF)
  assume r: "result s h = Some n"
  show ?thesis
  proof (cases "subject_at s hF")
    case None
    with Shared r show ?thesis by (simp add: subscribe_def)
  next
    case (Some a)
    show ?thesis
    proof (cases "terminal a")
      case None
      with Some r have "h \<noteq> hF" by (auto simp: result_def)
      then have "subject_at (s\<lparr>subjects := (subjects s)[hF := a\<lparr>observers := observers a @ [k]\<rparr>]\<rparr>) h
          = subject_at s h"
        by (simp add: subject_at_def)
      with Shared Some None r show ?thesis by (simp add: subscribe_def result_def)
    next
      case (Some m)
      with Shared \<open>subject_at s hF = Some a\<close> r show ?thesis
        by (simp add: subscribe_def result_deliver_closed)
    qed
  qed
qed

lemma result_on_response:
  assumes r: "result s h = Some n"
  shows "result (on_response E q outcome s) h = Some n"
proof (cases "map_step E (req_id q) outcome")
  case (Next d)
  with r show ?thesis by (simp add: on_response_next result_deliver_closed)
next
  case (Error e)
  show ?thesis
  proof (cases "status e = Some 404")
    case False
    have "result (snd (getErrorDoc (req_id q) e s)) h = Some n"
      using r subjects_cong(3)[of "snd (getErrorDoc (req_id q) e s)" s]
      by (simp add: getErrorDoc_frame)
    with Error False show ?thesis by (simp add: on_response_error result_deliver_closed)
  next
    case True
    show ?thesis
    proof (cases "req_id q = FILE_NOT_FOUND_ID")
      case t: True
      with Error True r show ?thesis
        by (simp add: on_response_not_found_itself result_deliver_closed)
    next
      case False
      have "result (s\<lparr>logged := l\<rparr>) h = Some n" for l using r by (simp add: frame_simps)
      with Error True False show ?thesis
        by (simp add: on_response_not_found Let_def result_subscribe result_getDocument)
    qed
  qed
qed

lemma result_step:
  assumes r: "result s h = Some n"
  shows "result (step E e s) h = Some n"
proof (cases e)
  case (Navigate p)
  have "result (navigate E p s) h = Some n"
    using result_getDocument[OF r, of E p]
    by (auto simp: navigate_def Let_def split_beta r notify_stream_def frame_simps
        split: option.splits notification.splits)
  with Navigate show ?thesis by simp
next
  case (GetDocument u)
  with r show ?thesis by (simp add: result_getDocument)
next
  case (Response k outcome)
  have "result (taken k s) h = Some n" using r by (simp add: taken_def frame_simps)
  then have "result (respond E k outcome s) h = Some n"
    using r by (auto simp: respond_def result_on_response taken_def[symmetric] split: option.splits)
  with Response show ?thesis by simp
qed

lemma result_run: "result s h = Some n \<Longrightarrow> result (run E evs s) h = Some n"
  by (induction evs arbitrary: s) (simp_all add: result_step)

text \<open>A cache entry goes away only when the request of its own subject fails generically.\<close>

lemma cache_getDocument:
  "cache s i = Some h \<Longrightarrow> cache (snd (getDocument E url s)) i = Some h"
  by (cases "cache s (document_id url)")
     (auto simp: getDocument_hit getDocument_miss fetchDocument_eq Let_def)

lemma cache_subscribe: "cache (subscribe k src s) = cache s"
  by (simp add: subscribe_def deliver_frame split: source.splits option.splits)

lemma cache_on_response:
  assumes c: "cache s i = Some h"
  shows "cache (on_response E q outcome s) i = Some h
    \<or> (i = req_id q \<and> (\<exists>err. map_step E i outcome = Error err \<and> status err \<noteq> Some 404))"
proof (cases "map_step E (req_id q) outcome")
  case (Next d)
  with c show ?thesis by (simp add: on_response_next deliver_frame)
next
  case (Error e)
  show ?thesis
  proof (cases "status e = Some 404")
    case False
    with Error c show ?thesis
      by (auto simp: on_response_error deliver_frame getErrorDoc_frame)
  next
    case True
    show ?thesis
    proof (cases "req_id q = FILE_NOT_FOUND_ID")
      case t: True
      with Error True c show ?thesis by (simp add: on_response_not_found_itself deliver_frame)
    next
      case False
      have "cache (s\<lparr>logged := l\<rparr>) i = Some h" for l using c by simp
      with Error True False show ?thesis
        by (simp add: on_response_not_found Let_def cache_subscribe cache_getDocument)
    qed
  qed
qed

lemma cache_step:
  assumes consistent: "consistent None s" and c: "cache s i = Some h"
  shows "cache (step E e s) i = Some h
    \<or> (\<exists>outcome err. e = Response h outcome \<and> h \<in> in_flight s
          \<and> map_step E i outcome = Error err \<and> status err \<noteq> Some 404)"
proof (cases e)
  case (Navigate p)
  have "cache (navigate E p s) i = Some h"
    using cache_getDocument[OF c, of E p]
    by (auto simp: navigate_def Let_def split_beta c notify_stream_def
        split: option.splits notification.splits)
  with Navigate show ?thesis by simp
next
  case (GetDocument u)
  with c show ?thesis by (simp add: cache_getDocument)
next
  case (Response k outcome)
  show ?thesis
  proof (cases "find (\<lambda>r. req_subject r = k) (pending s)")
    case None
    with Response c show ?thesis by (simp add: respond_def)
  next
    case (Some q)
    then have q: "q \<in> set (pending s)" "req_subject q = k" by (auto dest: find_pending)
    have ct: "cache (taken k s) i = Some h" using c by (simp add: taken_frame)
    have st: "step E e s = on_response E q outcome (taken k s)"
      using Response Some by (simp add: respond_def taken_def)
    from cache_on_response[OF ct, of E q outcome]
    show ?thesis
    proof
      assume "cache (on_response E q outcome (taken k s)) i = Some h"
      then show ?thesis by (simp add: st)
    next
      assume a: "i = req_id q \<and> (\<exists>err. map_step E i outcome = Error err \<and> status err \<noteq> Some 404)"
      with pending_facts(2)[OF consistent q(1)] c q(2) have "k = h" by simp
      with a q Response show ?thesis by (auto simp: in_flight_def)
    qed
  qed
qed

lemma in_flight_open: "consistent None s \<Longrightarrow> h \<in> in_flight s \<Longrightarrow> is_open s h"
  by (auto simp: consistent_def inv_pending_def in_flight_def)

lemma cached_result_step:
  assumes consistent: "consistent None s" and c: "cache s i = Some h" and r: "result s h = Some n"
  shows "cache (step E e s) i = Some h \<and> result (step E e s) h = Some n"
proof -
  have "h \<notin> in_flight s" using in_flight_open[OF consistent] result_Some_closed[OF r] by blast
  with cache_step[OF consistent c, of E e] result_step[OF r, of E e] show ?thesis by blast
qed

lemma cached_result_run:
  "consistent None s \<Longrightarrow> cache s i = Some h \<Longrightarrow> result s h = Some n \<Longrightarrow>
   cache (run E evs s) i = Some h \<and> result (run E evs s) h = Some n"
proof (induction evs arbitrary: s)
  case Nil
  then show ?case by simp
next
  case (Cons e evs)
  from cached_result_step[OF Cons.prems, of E e] consistent_step[OF Cons.prems(1), of E e]
  show ?case by (simp add: Cons.IH)
qed

text \<open>Subjects are never removed.\<close>

lemma cached_lt: "consistent None s \<Longrightarrow> cache s i = Some h \<Longrightarrow> h < length (subjects s)"
proof -
  assume consistent: "consistent None s" and c: "cache s i = Some h"
  then have "id_of s h = Some i" by (simp add: consistent_def inv_cache_def)
  then have "h < length (requests s)" by (rule id_of_lt)
  with consistent show ?thesis by (simp add: consistent_def inv_hist_def)
qed

lemma length_getDocument: "length (subjects s) \<le> length (subjects (snd (getDocument E url s)))"
  using getDocument_subjects[of E url s] by auto

lemma length_subscribe: "length (subjects (subscribe k src s)) = length (subjects s)"
  by (simp add: subscribe_def deliver_frame split: source.splits option.splits)

lemma length_on_response: "length (subjects s) \<le> length (subjects (on_response E q outcome s))"
proof (cases "map_step E (req_id q) outcome")
  case (Next d)
  then show ?thesis by (simp add: on_response_next deliver_frame)
next
  case (Error e)
  show ?thesis
  proof (cases "status e = Some 404")
    case False
    with Error show ?thesis by (simp add: on_response_error deliver_frame getErrorDoc_frame)
  next
    case True
    show ?thesis
    proof (cases "req_id q = FILE_NOT_FOUND_ID")
      case t: True
      with Error True show ?thesis by (simp add: on_response_not_found_itself deliver_frame)
    next
      case False
      have "length (subjects s) \<le> length (subjects (snd (getDocument E u (s\<lparr>logged := l\<rparr>))))" for u l
        using length_getDocument[of "s\<lparr>logged := l\<rparr>" E u] by simp
      with Error True False show ?thesis
        by (simp add: on_response_not_found Let_def length_subscribe)
    qed
  qed
qed

lemma length_step: "length (subjects s) \<le> length (subjects (step E e s))"
proof (cases e)
  case (Navigate p)
  have "length (subjects s) \<le> length (subjects (navigate E p s))"
    using length_getDocument[of s E p]
    by (auto simp: navigate_def Let_def split_beta notify_stream_def
        split: option.splits notification.splits)
  with Navigate show ?thesis by simp
next
  case (GetDocument u)
  then show ?thesis by (simp add: length_getDocument)
next
  case (Response k outcome)
  have "length (subjects s) \<le> length (subjects (on_response E q outcome (taken k s)))" for q
    using length_on_response[of "taken k s" E q outcome] by (simp add: taken_frame)
  then have "length (subjects s) \<le> length (subjects (respond E k outcome s))"
    by (auto simp: respond_def taken_def[symmetric] split: option.splits)
  with Response show ?thesis by simp
qed

lemma length_run: "length (subjects s) \<le> length (subjects (run E evs s))"
proof (induction evs arbitrary: s)
  case Nil
  show ?case by simp
next
  case (Cons e evs)
  from length_step[of s E e] Cons[of "step E e s"] show ?case by simp
qed

lemma run_snoc: "run E (evs @ [e]) s = step E e (run E evs s)"
  by (induction evs arbitrary: s) simp_all

text \<open>While its subject is open, a cache entry stays.\<close>

lemma open_step: "is_open (step E e s) h \<Longrightarrow> h < length (subjects s) \<Longrightarrow> is_open s h"
proof (rule ccontr)
  assume o: "is_open (step E e s) h" and lt: "h < length (subjects s)" and n: "\<not> is_open s h"
  from lt n obtain m where "result s h = Some m"
    by (auto simp: is_open_def result_def subject_at_def)
  then have "result (step E e s) h = Some m" by (rule result_step)
  with o show False by (auto dest: result_Some_closed)
qed

lemma cached_open_step:
  assumes consistent: "consistent None s" and c: "cache s i = Some h" and o: "is_open (step E e s) h"
  shows "cache (step E e s) i = Some h"
proof -
  from cache_step[OF consistent c, of E e] show ?thesis
  proof
    assume "\<exists>outcome err. e = Response h outcome \<and> h \<in> in_flight s
          \<and> map_step E i outcome = Error err \<and> status err \<noteq> Some 404"
    then obtain outcome err where e: "e = Response h outcome" and f: "h \<in> in_flight s"
      and m: "map_step E i outcome = Error err" "status err \<noteq> Some 404" by blast
    from f obtain q where q: "q \<in> set (pending s)" "req_subject q = h"
      by (auto simp: in_flight_def)
    from pending_facts(2)[OF consistent q(1)] have cq: "cache s (req_id q) = Some h" by (simp add: q)
    have "req_id q = i"
    proof -
      from consistent c have "id_of s h = Some i" by (simp add: consistent_def inv_cache_def)
      moreover from consistent cq have "id_of s h = Some (req_id q)" by (simp add: consistent_def inv_cache_def)
      ultimately show ?thesis by simp
    qed
    with m have m': "map_step E (req_id q) outcome = Error err" by simp
    have "step E e s = deliver (Next error_doc) [h] (snd (getErrorDoc (req_id q) err (taken h s)))"
      using e respond_pending[OF consistent q(1), of E outcome] on_response_error[OF m' m(2)] q(2)
      by simp
    moreover have "consistent (Some (h, req_id q)) (snd (getErrorDoc (req_id q) err (taken h s)))"
      using consistent_getErrorDoc[OF consistent_taken[OF consistent q(1)]] q(2) by simp
    ultimately have "result (step E e s) h = Some (Next error_doc)"
      by (simp add: result_deliver_served)
    with o show ?thesis by (auto dest: result_Some_closed)
  qed
qed

lemma cached_open_run:
  "consistent None s \<Longrightarrow> cache s i = Some h \<Longrightarrow> is_open (run E evs s) h \<Longrightarrow>
   cache (run E evs s) i = Some h"
proof (induction evs arbitrary: s rule: rev_induct)
  case Nil
  then show ?case by simp
next
  case (snoc e evs)
  from snoc.prems(3) have o: "is_open (step E e (run E evs s)) h" by (simp add: run_snoc)
  have wfr: "consistent None (run E evs s)" using snoc.prems(1) by (rule consistent_run)
  have "h < length (subjects s)" using snoc.prems(1,2) by (rule cached_lt)
  with length_run[of s E evs] have lt: "h < length (subjects (run E evs s))" by simp
  from open_step[OF o lt] have "is_open (run E evs s) h" .
  with snoc.IH[OF snoc.prems(1,2)] have "cache (run E evs s) i = Some h" .
  from cached_open_step[OF wfr this o] show ?case by (simp add: run_snoc)
qed

lemma run_append: "run E (evs @ evs') s = run E evs' (run E evs s)"
  by (induction evs arbitrary: s) simp_all

lemma pending_ids_distinct: "consistent None s \<Longrightarrow> distinct (map req_id (pending s))"
proof -
  assume consistent: "consistent None s"
  then have d: "distinct (map req_subject (pending s))" by (simp add: consistent_def inv_hist_def)
  then have dp: "distinct (pending s)" by (simp add: distinct_map)
  have "inj_on req_id (set (pending s))"
  proof (rule inj_onI)
    fix r r' assume r: "r \<in> set (pending s)" "r' \<in> set (pending s)" "req_id r = req_id r'"
    from pending_facts(2)[OF consistent r(1)] pending_facts(2)[OF consistent r(2)] r(3)
    have "req_subject r' = req_subject r" by simp
    with consistent r show "r = r'" by (auto dest: pending_unique)
  qed
  with dp show ?thesis by (simp add: distinct_map)
qed

section \<open>The stream between two navigations\<close>

lemma deliver_tuned_open:
  "is_open s h \<Longrightarrow> inner s = Some h \<Longrightarrow>
   (is_open (deliver n ws s) h \<and> inner (deliver n ws s) = Some h
      \<and> emitted (deliver n ws s) = emitted s)
   \<or> (result (deliver n ws s) h = Some n \<and> inner (deliver n ws s) = None
      \<and> emitted (deliver n ws s) = emitted s @ [n])"
proof (induction n ws s rule: deliver.induct)
  case (1 n s)
  then show ?case by (simp add: deliver.simps)
next
  case (2 n k ks s)
  show ?case
  proof (cases "is_open s k")
    case False
    with 2 show ?thesis by (simp add: deliver.simps)
  next
    case op: True
    let ?s1 = "settle n k s"
    let ?ws = "observers (subjects s ! k) @ ks"
    have d: "deliver n (k # ks) s = deliver n ?ws ?s1" using op by (simp add: deliver.simps)
    show ?thesis
    proof (cases "k = h")
      case True
      from 2(4) True have s1: "inner ?s1 = None" "emitted ?s1 = emitted s @ [n]"
        by (auto simp: settle_def Let_def notify_stream_def split: notification.splits)
      have "result ?s1 h = Some n"
        using True is_open_lt[OF op] by (simp add: result_def subject_at_settle)
      then have "result (deliver n ?ws ?s1) h = Some n" by (rule result_deliver_closed)
      with deliver_stream_idle[OF s1(1), of n ?ws] s1 show ?thesis by (simp add: d)
    next
      case False
      with 2(3) have "is_open ?s1 h" by (simp add: is_open_settle)
      moreover from False 2(4) have "inner ?s1 = Some h" "emitted ?s1 = emitted s"
        by (auto simp: settle_def Let_def)
      ultimately have "is_open ?s1 h" "inner ?s1 = Some h" "emitted ?s1 = emitted s"
        by simp_all
      with 2(1)[OF op] show ?thesis by (simp add: d)
    qed
  qed
qed

lemma tuned_deliver: "tuned h em s \<Longrightarrow> tuned h em (deliver n ws s)"
  unfolding tuned_def
proof (elim disjE conjE exE)
  assume "is_open s h" "inner s = Some h" "emitted s = em"
  with deliver_tuned_open[of s h n ws]
  show "(is_open (deliver n ws s) h \<and> inner (deliver n ws s) = Some h \<and> emitted (deliver n ws s) = em)
      \<or> (\<exists>m. result (deliver n ws s) h = Some m \<and> inner (deliver n ws s) = None
            \<and> emitted (deliver n ws s) = em @ [m])"
    by auto
next
  fix m assume "result s h = Some m" "inner s = None" "emitted s = em @ [m]"
  with deliver_stream_idle[of s n ws] result_deliver_closed[of s h m n ws]
  show "(is_open (deliver n ws s) h \<and> inner (deliver n ws s) = Some h \<and> emitted (deliver n ws s) = em)
      \<or> (\<exists>m. result (deliver n ws s) h = Some m \<and> inner (deliver n ws s) = None
            \<and> emitted (deliver n ws s) = em @ [m])"
    by auto
qed

lemma tuned_cong:
  "tuned h em s \<Longrightarrow> subjects t = subjects s \<Longrightarrow> inner t = inner s \<Longrightarrow> emitted t = emitted s \<Longrightarrow>
   tuned h em t"
  using subjects_cong(2,3)[of t s] by (simp add: tuned_def)

lemma tuned_getDocument: "tuned h em s \<Longrightarrow> tuned h em (snd (getDocument E url s))"
proof -
  assume t: "tuned h em s"
  let ?g = "snd (getDocument E url s)"
  from t have lt: "h < length (subjects s)"
    by (auto simp: tuned_def dest: is_open_lt result_Some_lt)
  then have "subject_at ?g h = subject_at s h" by (rule subject_at_getDocument)
  then have "is_open ?g h = is_open s h" "result ?g h = result s h"
    by (simp_all add: is_open_def result_def)
  moreover have "inner ?g = inner s" "emitted ?g = emitted s"
    by (cases "cache s (document_id url)";
        simp add: getDocument_hit getDocument_miss fetchDocument_eq Let_def)+
  ultimately show ?thesis using t by (simp add: tuned_def)
qed

lemma tuned_subscribe: "tuned h em s \<Longrightarrow> tuned h em (subscribe k src s)"
proof (cases src)
  case (Of d)
  assume "tuned h em s"
  with Of show ?thesis by (simp add: subscribe_def tuned_deliver)
next
  case (Shared hF)
  assume t: "tuned h em s"
  show ?thesis
  proof (cases "subject_at s hF")
    case None
    with Shared t show ?thesis by (simp add: subscribe_def)
  next
    case (Some a)
    show ?thesis
    proof (cases "terminal a")
      case (Some m)
      with Shared \<open>subject_at s hF = Some a\<close> t show ?thesis
        by (simp add: subscribe_def tuned_deliver)
    next
      case None
      let ?t = "s\<lparr>subjects := (subjects s)[hF := a\<lparr>observers := observers a @ [k]\<rparr>]\<rparr>"
      from Some have hF: "hF < length (subjects s)" "subjects s ! hF = a"
        by (auto simp: subject_at_def split: if_splits)
      have "subject_at ?t j = (if j = hF then Some (a\<lparr>observers := observers a @ [k]\<rparr>)
          else subject_at s j)" for j
        using hF by (auto simp: subject_at_def)
      then have "is_open ?t j = is_open s j" "result ?t j = result s j" for j
        using Some None by (auto simp: is_open_def result_def)
      with t have "tuned h em ?t" by (simp add: tuned_def)
      with Shared Some None show ?thesis by (simp add: subscribe_def)
    qed
  qed
qed

lemma tuned_on_response:
  assumes t: "tuned h em s"
  shows "tuned h em (on_response E q outcome s)"
proof (cases "map_step E (req_id q) outcome")
  case (Next d)
  with t show ?thesis by (simp add: on_response_next tuned_deliver)
next
  case (Error e)
  show ?thesis
  proof (cases "status e = Some 404")
    case False
    have "tuned h em (snd (getErrorDoc (req_id q) e s))"
      by (rule tuned_cong[OF t]) (simp_all add: getErrorDoc_def Let_def)
    with Error False show ?thesis by (simp add: on_response_error tuned_deliver)
  next
    case True
    show ?thesis
    proof (cases "req_id q = FILE_NOT_FOUND_ID")
      case t': True
      with Error True t show ?thesis by (simp add: on_response_not_found_itself tuned_deliver)
    next
      case False
      have "tuned h em (s\<lparr>logged := l\<rparr>)" for l by (rule tuned_cong[OF t]) simp_all
      with Error True False show ?thesis
        by (simp add: on_response_not_found Let_def tuned_subscribe tuned_getDocument)
    qed
  qed
qed

lemma tuned_step: "tuned h em s \<Longrightarrow> \<not> is_navigation e \<Longrightarrow> tuned h em (step E e s)"
proof (cases e)
  case (Navigate p)
  assume "\<not> is_navigation e"
  with Navigate show ?thesis by simp
next
  case (GetDocument u)
  assume "tuned h em s"
  with GetDocument show ?thesis by (simp add: tuned_getDocument)
next
  case (Response k outcome)
  assume t: "tuned h em s"
  have "tuned h em (taken k s)" by (rule tuned_cong[OF t]) (simp_all add: taken_def)
  then have "tuned h em (respond E k outcome s)"
    using t by (auto simp: respond_def taken_def[symmetric] tuned_on_response split: option.splits)
  with Response show ?thesis by simp
qed

lemma tuned_run:
  "tuned h em s \<Longrightarrow> \<forall>e\<in>set evs. \<not> is_navigation e \<Longrightarrow> tuned h em (run E evs s)"
  by (induction evs arbitrary: s) (simp_all add: tuned_step)

lemma emitted_getDocument: "emitted (snd (getDocument E url s)) = emitted s"
  by (cases "cache s (document_id url)")
     (simp_all add: getDocument_hit getDocument_miss fetchDocument_eq Let_def)

lemma tuned_navigate:
  assumes consistent: "consistent None s"
  shows "tuned (fst (getDocument E p s)) (emitted s) (navigate E p s)"
proof -
  let ?g = "getDocument E p s"
  let ?t = "(snd ?g)\<lparr>inner := Some (fst ?g)\<rparr>"
  from consistent have ns: "\<not> stopped s" by (simp add: consistent_def inv_results_def)
  have wfg: "consistent None (snd ?g)" using consistent by (simp add: consistent_getDocument)
  have lt: "fst ?g < length (subjects (snd ?g))"
    using cached_lt[OF wfg getDocument_cached] .
  have nav: "navigate E p s = (case result ?t (fst ?g) of None \<Rightarrow> ?t | Some n \<Rightarrow> notify_stream n ?t)"
    using ns by (simp add: navigate_def Let_def split_beta)
  show ?thesis
  proof (cases "result ?t (fst ?g)")
    case None
    then have "is_open ?t (fst ?g)"
      using lt by (auto simp: result_def is_open_def subject_at_def)
    with None show ?thesis by (simp add: nav tuned_def emitted_getDocument)
  next
    case (Some n)
    from wfg have "inv_results (snd ?g)" by (simp add: consistent_def)
    with Some obtain d where "n = Next d"
      unfolding inv_results_def by (auto simp: frame_simps)
    with Some show ?thesis
      by (simp add: nav tuned_def notify_stream_def emitted_getDocument frame_simps)
  qed
qed

section \<open>The document stream\<close>

text \<open>
  C9. After the navigation to \<open>path\<close>, and until the next navigation, the
  stream has emitted exactly what it had emitted before that navigation, followed
  by the document of \<open>path\<close> once the subject that \<^verbatim>\<open>getDocument(path)\<close>
  returned has completed. Whatever the earlier paths' fetches deliver in the
  meantime is not emitted.
\<close>

theorem stream_follows_latest_path:
  assumes "\<forall>e\<in>set evs2. \<not> is_navigation e"
  shows "(let s1 = run E evs1 init;
              h = fst (getDocument E path s1);
              s2 = run E (evs1 @ Navigate path # evs2) init
          in emitted s2 = emitted s1 @ (case result s2 h of None \<Rightarrow> [] | Some n \<Rightarrow> [n]))"
proof -
  let ?s1 = "run E evs1 init"
  let ?h = "fst (getDocument E path ?s1)"
  let ?s2 = "run E evs2 (navigate E path ?s1)"
  have e: "run E (evs1 @ Navigate path # evs2) init = ?s2" by (simp add: run_append)
  have "tuned ?h (emitted ?s1) (navigate E path ?s1)"
    by (rule tuned_navigate) (rule consistent_reachable)
  then have "tuned ?h (emitted ?s1) ?s2" using assms by (rule tuned_run)
  then have "emitted ?s2 = emitted ?s1 @ (case result ?s2 ?h of None \<Rightarrow> [] | Some n \<Rightarrow> [n])"
    by (auto simp: tuned_def is_open_def result_def split: option.splits)
  then show ?thesis by (simp add: Let_def e)
qed

text \<open>
  Paths \<^verbatim>\<open>a\<close> then \<^verbatim>\<open>b\<close>, then both answers: \<^verbatim>\<open>a\<close>'s subject completes and
  only \<^verbatim>\<open>b\<close>'s document is emitted.
\<close>

theorem stream_follows_latest_path_witness:
  "fst (getDocument demo_env ''b'' (run demo_env [Navigate ''a''] init)) = 1
   \<and> emitted (run demo_env [Navigate ''a''] init) = []
   \<and> result (run demo_env ([Navigate ''a''] @ Navigate ''b''
         # [Response 0 (Next ''A''), Response 1 (Next ''B'')]) init) 0
       = Some (Next \<lparr>doc_id = ''a'', contents = Markup ''<p>A</p>''\<rparr>)
   \<and> emitted (run demo_env ([Navigate ''a''] @ Navigate ''b''
         # [Response 0 (Next ''A''), Response 1 (Next ''B'')]) init)
       = [Next \<lparr>doc_id = ''b'', contents = Markup ''<p>B</p>''\<rparr>]"
proof -
  have a: "\<forall>e\<in>set [Response 0 (Next ''A''), Response 1 (Next ''B'')]. \<not> is_navigation e"
    by simp
  have h: "fst (getDocument demo_env ''b'' (run demo_env [Navigate ''a''] init)) = 1"
    by (simp add: eval_defs)
  have e: "emitted (run demo_env [Navigate ''a''] init) = []"
    by (simp add: eval_defs)
  have r: "result (run demo_env ([Navigate ''a''] @ Navigate ''b''
         # [Response 0 (Next ''A''), Response 1 (Next ''B'')]) init) 1
       = Some (Next \<lparr>doc_id = ''b'', contents = Markup ''<p>B</p>''\<rparr>)"
    by (simp add: eval_defs)
  have r0: "result (run demo_env ([Navigate ''a''] @ Navigate ''b''
         # [Response 0 (Next ''A''), Response 1 (Next ''B'')]) init) 0
       = Some (Next \<lparr>doc_id = ''a'', contents = Markup ''<p>A</p>''\<rparr>)"
    by (simp add: eval_defs)
  from stream_follows_latest_path[OF a, of demo_env "[Navigate ''a'']" "''b''"]
  have "emitted (run demo_env ([Navigate ''a''] @ Navigate ''b''
         # [Response 0 (Next ''A''), Response 1 (Next ''B'')]) init)
       = [Next \<lparr>doc_id = ''b'', contents = Markup ''<p>B</p>''\<rparr>]"
    unfolding Let_def h e r by simp
  with h e r0 show ?thesis by blast
qed

section \<open>No failure reaches a subscriber\<close>

lemma inv_emitted_cong:
  "inv_emitted s \<Longrightarrow> emitted t = emitted s \<Longrightarrow> stopped t = stopped s \<Longrightarrow> inv_emitted t"
  by (simp add: inv_emitted_def)

lemma inv_emitted_notify: "inv_emitted s \<Longrightarrow> inv_emitted (notify_stream n s)"
  by (auto simp: inv_emitted_def notify_stream_def split: notification.splits)

lemma inv_emitted_settle: "inv_emitted s \<Longrightarrow> inv_emitted (settle n h s)"
proof -
  assume a: "inv_emitted s"
  have "inv_emitted (s\<lparr>subjects := x\<rparr>)" for x
    by (rule inv_emitted_cong[OF a]) simp_all
  then show ?thesis by (simp add: settle_def Let_def inv_emitted_notify)
qed

lemma inv_emitted_deliver: "inv_emitted s \<Longrightarrow> inv_emitted (deliver n hs s)"
  by (induction n hs s rule: deliver.induct) (simp_all add: deliver.simps inv_emitted_settle)

lemma stream_getDocument:
  "emitted (snd (getDocument E url s)) = emitted s"
  "stopped (snd (getDocument E url s)) = stopped s"
  "inner (snd (getDocument E url s)) = inner s"
  by (cases "cache s (document_id url)";
      simp add: getDocument_hit getDocument_miss fetchDocument_eq Let_def)+

lemma inv_emitted_subscribe: "inv_emitted s \<Longrightarrow> inv_emitted (subscribe k src s)"
  by (auto simp: subscribe_def inv_emitted_deliver split: source.splits option.splits
      intro: inv_emitted_cong)

lemma inv_emitted_on_response:
  assumes a: "inv_emitted s"
  shows "inv_emitted (on_response E q outcome s)"
proof (cases "map_step E (req_id q) outcome")
  case (Next d)
  with a show ?thesis by (simp add: on_response_next inv_emitted_deliver)
next
  case (Error e)
  show ?thesis
  proof (cases "status e = Some 404")
    case False
    have "inv_emitted (snd (getErrorDoc (req_id q) e s))"
      by (rule inv_emitted_cong[OF a]) (simp_all add: getErrorDoc_def Let_def)
    with Error False show ?thesis by (simp add: on_response_error inv_emitted_deliver)
  next
    case True
    show ?thesis
    proof (cases "req_id q = FILE_NOT_FOUND_ID")
      case t: True
      with Error True a show ?thesis
        by (simp add: on_response_not_found_itself inv_emitted_deliver)
    next
      case False
      have "inv_emitted (snd (getDocument E u (s\<lparr>logged := l\<rparr>)))" for u l
        by (rule inv_emitted_cong[OF a]) (simp_all add: stream_getDocument)
      with Error True False show ?thesis
        by (simp add: on_response_not_found Let_def inv_emitted_subscribe)
    qed
  qed
qed

lemma inv_emitted_step: "inv_emitted s \<Longrightarrow> inv_emitted (step E e s)"
proof (cases e)
  case (Navigate p)
  assume a: "inv_emitted s"
  have "inv_emitted ((snd (getDocument E p s))\<lparr>inner := x\<rparr>)" for x
    by (rule inv_emitted_cong[OF a]) (simp_all add: stream_getDocument)
  then have "inv_emitted (navigate E p s)"
    using a by (auto simp: navigate_def Let_def split_beta inv_emitted_notify split: option.splits)
  with Navigate show ?thesis by simp
next
  case (GetDocument u)
  assume a: "inv_emitted s"
  have "inv_emitted (snd (getDocument E u s))"
    by (rule inv_emitted_cong[OF a]) (simp_all add: stream_getDocument)
  with GetDocument show ?thesis by simp
next
  case (Response k outcome)
  assume a: "inv_emitted s"
  have "inv_emitted (taken k s)" by (rule inv_emitted_cong[OF a]) (simp_all add: taken_def)
  then have "inv_emitted (respond E k outcome s)"
    using a by (auto simp: respond_def taken_def[symmetric] inv_emitted_on_response split: option.splits)
  with Response show ?thesis by simp
qed

lemma inv_emitted_run: "inv_emitted s \<Longrightarrow> inv_emitted (run E evs s)"
  by (induction evs arbitrary: s) (simp_all add: inv_emitted_step)

lemma emitted_reachable: "m \<in> set (emitted (run E evs init)) \<Longrightarrow> \<exists>d. m = Next d"
proof -
  have "inv_emitted (run E evs init)"
    by (rule inv_emitted_run) (simp add: inv_emitted_def init_def)
  moreover have "\<not> stopped (run E evs init)"
    using consistent_reachable[of E evs] by (simp add: consistent_def inv_results_def)
  ultimately show "m \<in> set (emitted (run E evs init)) \<Longrightarrow> \<exists>d. m = Next d"
    by (auto simp: inv_emitted_def)
qed

section \<open>Every open subject waits for the transport\<close>

lemma open_waits:
  assumes consistent: "consistent None s" and o: "is_open s k"
  shows "k \<in> in_flight s \<or> (\<exists>hF\<in>in_flight s. observes s k hF)"
proof -
  from consistent o have "k \<in> in_flight s \<or> (\<exists>hF. observes s k hF)"
    by (auto simp: consistent_def inv_live_def)
  moreover have "hF \<in> in_flight s" if "observes s k hF" for hF
  proof -
    from consistent that have "\<exists>r\<in>set (pending s). req_subject r = hF \<and> req_id r = FILE_NOT_FOUND_ID"
      unfolding consistent_def inv_obs_def by blast
    then show ?thesis by (auto simp: in_flight_def)
  qed
  ultimately show ?thesis by blast
qed

lemma pending_getDocument:
  "set (pending (snd (getDocument E url s)))
     \<subseteq> set (pending s) \<union> {r. req_subject r = length (subjects s)}"
  by (cases "cache s (document_id url)")
     (auto simp: getDocument_hit getDocument_miss fetchDocument_eq Let_def)

lemma pending_subscribe: "pending (subscribe k src s) = pending s"
  by (simp add: subscribe_def deliver_frame split: source.splits option.splits)

lemma pending_on_response:
  "set (pending (on_response E q outcome s))
     \<subseteq> set (pending s) \<union> {r. req_subject r = length (subjects s)}"
proof (cases "map_step E (req_id q) outcome")
  case (Next d)
  then show ?thesis by (simp add: on_response_next deliver_frame)
next
  case (Error e)
  show ?thesis
  proof (cases "status e = Some 404")
    case False
    with Error show ?thesis by (simp add: on_response_error deliver_frame getErrorDoc_frame)
  next
    case True
    show ?thesis
    proof (cases "req_id q = FILE_NOT_FOUND_ID")
      case t: True
      with Error True show ?thesis by (simp add: on_response_not_found_itself deliver_frame)
    next
      case False
      have "set (pending (snd (getDocument E u (s\<lparr>logged := l\<rparr>))))
          \<subseteq> set (pending s) \<union> {r. req_subject r = length (subjects s)}" for u l
        using pending_getDocument[of E u "s\<lparr>logged := l\<rparr>"] by simp
      with Error True False show ?thesis
        by (simp add: on_response_not_found Let_def pending_subscribe)
    qed
  qed
qed

lemma answered_not_in_flight:
  assumes consistent: "consistent None s" and q: "q \<in> set (pending s)"
  shows "req_subject q \<notin> in_flight (respond E (req_subject q) outcome s)"
proof
  let ?h = "req_subject q"
  assume "?h \<in> in_flight (respond E ?h outcome s)"
  then obtain r where r: "r \<in> set (pending (on_response E q outcome (taken ?h s)))"
      "req_subject r = ?h"
    by (auto simp: in_flight_def respond_pending[OF consistent q])
  from pending_on_response[of E q outcome "taken ?h s"] r(1)
  have "r \<in> set (pending (taken ?h s)) \<or> req_subject r = length (subjects s)"
    by (auto simp: taken_frame)
  moreover have "?h < length (subjects s)"
    using pending_facts(1)[OF consistent q] by (rule is_open_lt)
  ultimately show False using r(2) by (auto simp: taken_def)
qed

text \<open>The answer to a request for the not-found document closes its subject and every observer.\<close>

lemma not_found_request_closes:
  assumes consistent: "consistent None s" and q: "q \<in> set (pending s)" and i: "req_id q = FILE_NOT_FOUND_ID"
  shows "\<exists>d. \<forall>k. k = req_subject q \<or> observes s k (req_subject q) \<longrightarrow>
           result (respond E (req_subject q) outcome s) k = Some (Next d)"
proof -
  let ?h = "req_subject q"
  let ?t = "taken ?h s"
  have wt: "consistent (Some (?h, req_id q)) ?t" by (rule consistent_taken[OF consistent q])
  have closes: "\<forall>k. k = ?h \<or> observes s k ?h \<longrightarrow> result (deliver (Next d) [?h] t) k = Some (Next d)"
    if "consistent (Some (?h, req_id q)) t" "subjects t = subjects s" for t d
    using that subjects_cong(4)[OF that(2)]
    by (auto simp: result_def deliver_served closed_def)
  show ?thesis
  proof (cases "map_step E (req_id q) outcome")
    case (Next d)
    with closes[OF wt, of d] show ?thesis
      by (auto simp: respond_pending[OF consistent q] on_response_next taken_frame)
  next
    case (Error e)
    show ?thesis
    proof (cases "status e = Some 404")
      case False
      from closes[OF consistent_getErrorDoc[OF wt, of e], of error_doc] Error False show ?thesis
        by (auto simp: respond_pending[OF consistent q] on_response_error getErrorDoc_frame taken_frame)
    next
      case True
      from closes[OF wt, of not_found_doc] Error True i show ?thesis
        by (auto simp: respond_pending[OF consistent q] on_response_not_found_itself taken_frame)
    qed
  qed
qed

lemma observed_is_not_found_request:
  assumes consistent: "consistent None s" and o: "observes s k h"
  shows "\<exists>q\<in>set (pending s). req_subject q = h \<and> req_id q = FILE_NOT_FOUND_ID"
  using consistent o unfolding consistent_def inv_obs_def by blast

section \<open>What the subjects hold\<close>

lemma result_settle:
  "result (settle n k s) h = Some m \<Longrightarrow> result s h = Some m \<or> m = n"
  by (auto simp: result_def subject_at_settle split: if_splits)

lemma result_deliver_cases:
  "result (deliver n hs s) h = Some m \<Longrightarrow> result s h = Some m \<or> m = n"
proof (induction n hs s rule: deliver.induct)
  case (1 n s)
  then show ?case by (simp add: deliver.simps)
next
  case (2 n k ks s)
  show ?case
  proof (cases "is_open s k")
    case True
    with 2 have "result (settle n k s) h = Some m \<or> m = n" by (simp add: deliver.simps)
    with result_settle[of n k s h m] show ?thesis by blast
  next
    case False
    with 2 show ?thesis by (simp add: deliver.simps)
  qed
qed

lemma inv_docs_deliver:
  "inv_docs E s \<Longrightarrow> delivered E d \<Longrightarrow> inv_docs E (deliver (Next d) hs s)"
  unfolding inv_docs_def by (blast dest: result_deliver_cases)

lemma inv_docs_cong: "inv_docs E s \<Longrightarrow> subjects t = subjects s \<Longrightarrow> inv_docs E t"
  using subjects_cong(3)[of t s] by (simp add: inv_docs_def)

lemma result_getDocument_cases:
  "result (snd (getDocument E url s)) h = Some m \<Longrightarrow> result s h = Some m"
  using getDocument_subjects[of E url s]
  by (auto simp: result_def subject_at_def nth_append fresh_def split: if_splits option.splits)

lemma inv_docs_getDocument: "inv_docs E s \<Longrightarrow> inv_docs E (snd (getDocument E url s))"
  unfolding inv_docs_def by (blast dest: result_getDocument_cases)

lemma inv_docs_subscribe:
  assumes a: "inv_docs E s" and src: "\<And>d. src = Of d \<Longrightarrow> delivered E d"
  shows "inv_docs E (subscribe k src s)"
proof (cases src)
  case (Of d)
  with a src show ?thesis by (simp add: subscribe_def inv_docs_deliver)
next
  case (Shared hF)
  show ?thesis
  proof (cases "subject_at s hF")
    case None
    with Shared a show ?thesis by (simp add: subscribe_def)
  next
    case (Some x)
    show ?thesis
    proof (cases "terminal x")
      case None
      let ?t = "s\<lparr>subjects := (subjects s)[hF := x\<lparr>observers := observers x @ [k]\<rparr>]\<rparr>"
      from Some have hF: "hF < length (subjects s)" "subjects s ! hF = x"
        by (auto simp: subject_at_def split: if_splits)
      have "result ?t j = result s j" for j
        using hF None by (auto simp: result_def subject_at_def nth_list_update)
      with a have "inv_docs E ?t" by (simp add: inv_docs_def)
      with Shared Some None show ?thesis by (simp add: subscribe_def)
    next
      case t: (Some n)
      with Some have "result s hF = Some n" by (simp add: result_def)
      with a obtain d where "n = Next d" "delivered E d" by (auto simp: inv_docs_def)
      with Shared Some t a show ?thesis by (simp add: subscribe_def inv_docs_deliver)
    qed
  qed
qed

lemma inv_docs_subscribe_shared: "inv_docs E s \<Longrightarrow> inv_docs E (subscribe k (Shared hF) s)"
  by (rule inv_docs_subscribe) simp_all

lemma delivered_error_doc: "delivered E error_doc"
  by (simp add: delivered_def)

lemma delivered_not_found_doc: "delivered E not_found_doc"
  by (simp add: delivered_def)

lemma inv_docs_on_response:
  assumes a: "inv_docs E s" and i: "req_id q \<noteq> []"
  shows "inv_docs E (on_response E q outcome s)"
proof (cases "map_step E (req_id q) outcome")
  case (Next d)
  then have "delivered E d"
    using i by (auto simp: map_step_def delivered_def split: notification.splits sum.splits)
  with a Next show ?thesis by (simp add: on_response_next inv_docs_deliver)
next
  case (Error e)
  show ?thesis
  proof (cases "status e = Some 404")
    case False
    have "inv_docs E (snd (getErrorDoc (req_id q) e s))"
      by (rule inv_docs_cong[OF a]) (simp add: getErrorDoc_frame)
    with Error False show ?thesis
      by (simp add: on_response_error inv_docs_deliver delivered_error_doc)
  next
    case True
    show ?thesis
    proof (cases "req_id q = FILE_NOT_FOUND_ID")
      case t: True
      with Error True a show ?thesis
        by (simp add: on_response_not_found_itself inv_docs_deliver delivered_not_found_doc)
    next
      case False
      have "inv_docs E (s\<lparr>logged := l\<rparr>)" for l by (rule inv_docs_cong[OF a]) simp
      with Error True False show ?thesis
        by (simp add: on_response_not_found Let_def inv_docs_subscribe_shared inv_docs_getDocument)
    qed
  qed
qed

lemma inv_docs_step:
  assumes a: "inv_docs E s" and c: "consistent None s"
  shows "inv_docs E (step E e s)"
proof (cases e)
  case (Navigate p)
  have "inv_docs E (navigate E p s)"
  proof (rule inv_docs_cong)
    show "inv_docs E (snd (getDocument E p s))" using a by (rule inv_docs_getDocument)
    show "subjects (navigate E p s) = subjects (snd (getDocument E p s))"
      using c by (auto simp: navigate_def Let_def split_beta notify_stream_def consistent_def
          inv_results_def split: option.splits notification.splits)
  qed
  with Navigate show ?thesis by simp
next
  case (GetDocument u)
  with a show ?thesis by (simp add: inv_docs_getDocument)
next
  case (Response k outcome)
  show ?thesis
  proof (cases "find (\<lambda>r. req_subject r = k) (pending s)")
    case None
    with Response a show ?thesis by (simp add: respond_def)
  next
    case (Some q)
    then have q: "q \<in> set (pending s)" by (auto dest: find_pending)
    have "inv_docs E (taken k s)" by (rule inv_docs_cong[OF a]) (simp add: taken_frame)
    then have "inv_docs E (on_response E q outcome (taken k s))"
      using pending_facts(3)[OF c q] by (rule inv_docs_on_response)
    with Response Some show ?thesis by (simp add: respond_def taken_def)
  qed
qed

lemma inv_docs_run: "inv_docs E s \<Longrightarrow> consistent None s \<Longrightarrow> inv_docs E (run E evs s)"
  by (induction evs arbitrary: s) (simp_all add: inv_docs_step consistent_step)

lemma inv_docs_reachable: "inv_docs E (run E evs init)"
  by (rule inv_docs_run) (simp add: inv_docs_def init_def result_def subject_at_def, rule consistent_init)

text \<open>With a compiler that returns strings only, every latched value is a Document.\<close>

lemma delivered_is_document:
  assumes c: "\<forall>raw v. compile E raw = Inr v \<longrightarrow> (\<exists>t. v = Markup t)" and d: "delivered E d"
  shows "is_document d"
  using d unfolding delivered_def
proof (elim disjE conjE exE)
  assume "d = error_doc"
  then show ?thesis by (simp add: is_document_def error_doc_def FETCHING_ERROR_ID_def)
next
  assume "d = not_found_doc"
  then show ?thesis by (simp add: is_document_def not_found_doc_def FILE_NOT_FOUND_ID_def)
next
  fix raw assume i: "doc_id d \<noteq> []" and r: "compile E raw = Inr (contents d)"
  from c r obtain t where "contents d = Markup t" by blast
  with i show ?thesis by (simp add: is_document_def)
qed

lemma latched_documents:
  assumes c: "\<forall>raw v. compile E raw = Inr v \<longrightarrow> (\<exists>t. v = Markup t)"
    and r: "result (run E evs init) h = Some n"
  shows "\<exists>d. n = Next d \<and> is_document d"
proof -
  from inv_docs_reachable[of E evs] r obtain d where "n = Next d" "delivered E d"
    by (auto simp: inv_docs_def)
  with delivered_is_document[OF c] show ?thesis by blast
qed

section \<open>What the stream has emitted\<close>

lemma inv_heard_keep:
  assumes a: "inv_heard s" and e: "emitted t = emitted s"
    and r: "\<And>h m. result s h = Some m \<Longrightarrow> result t h = Some m"
  shows "inv_heard t"
  using a r unfolding inv_heard_def e by blast

lemma inv_heard_deliver: "inv_heard s \<Longrightarrow> inv_heard (deliver n hs s)"
proof -
  assume a: "inv_heard s"
  from deliver_stream[of n hs s] show ?thesis
  proof (elim disjE conjE exE)
    assume "emitted (deliver n hs s) = emitted s"
    with a show ?thesis by (rule inv_heard_keep) (rule result_deliver_closed)
  next
    fix h
    assume e: "emitted (deliver n hs s) = emitted s @ [n]"
      and r: "result (deliver n hs s) h = Some n"
    show ?thesis
      unfolding inv_heard_def e
    proof
      fix m assume "m \<in> set (emitted s @ [n])"
      then consider "m \<in> set (emitted s)" | "m = n" by auto
      then show "\<exists>k. result (deliver n hs s) k = Some m"
      proof cases
        case 1
        with a obtain k where "result s k = Some m" by (auto simp: inv_heard_def)
        then have "result (deliver n hs s) k = Some m" by (rule result_deliver_closed)
        then show ?thesis ..
      next
        case 2
        with r show ?thesis by blast
      qed
    qed
  qed
qed

lemma inv_heard_getDocument: "inv_heard s \<Longrightarrow> inv_heard (snd (getDocument E url s))"
  by (erule inv_heard_keep) (simp_all add: stream_getDocument result_getDocument)

lemma inv_heard_subscribe: "inv_heard s \<Longrightarrow> inv_heard (subscribe k src s)"
proof (cases src)
  case (Of d)
  assume "inv_heard s"
  with Of show ?thesis by (simp add: subscribe_def inv_heard_deliver)
next
  case (Shared hF)
  assume a: "inv_heard s"
  show ?thesis
  proof (cases "subject_at s hF")
    case None
    with Shared a show ?thesis by (simp add: subscribe_def)
  next
    case (Some x)
    show ?thesis
    proof (cases "terminal x")
      case None
      let ?t = "s\<lparr>subjects := (subjects s)[hF := x\<lparr>observers := observers x @ [k]\<rparr>]\<rparr>"
      have t: "subscribe k src s = ?t" using Shared Some None by (simp add: subscribe_def)
      have "inv_heard (subscribe k src s)"
      proof (rule inv_heard_keep[OF a])
        show "emitted (subscribe k src s) = emitted s" by (simp add: t)
        show "result s h = Some m \<Longrightarrow> result (subscribe k src s) h = Some m" for h m
          by (rule result_subscribe)
      qed
      then show ?thesis .
    next
      case t: (Some n)
      with Shared Some a show ?thesis by (simp add: subscribe_def inv_heard_deliver)
    qed
  qed
qed

lemma inv_heard_on_response:
  assumes a: "inv_heard s"
  shows "inv_heard (on_response E q outcome s)"
proof (cases "map_step E (req_id q) outcome")
  case (Next d)
  with a show ?thesis by (simp add: on_response_next inv_heard_deliver)
next
  case (Error e)
  show ?thesis
  proof (cases "status e = Some 404")
    case False
    have "inv_heard (snd (getErrorDoc (req_id q) e s))"
    proof (rule inv_heard_keep[OF a])
      show "emitted (snd (getErrorDoc (req_id q) e s)) = emitted s"
        by (simp add: getErrorDoc_def Let_def)
      show "result s h = Some m \<Longrightarrow> result (snd (getErrorDoc (req_id q) e s)) h = Some m" for h m
        using subjects_cong(3)[of "snd (getErrorDoc (req_id q) e s)" s]
        by (simp add: getErrorDoc_frame)
    qed
    with Error False show ?thesis by (simp add: on_response_error inv_heard_deliver)
  next
    case True
    show ?thesis
    proof (cases "req_id q = FILE_NOT_FOUND_ID")
      case t: True
      with Error True a show ?thesis by (simp add: on_response_not_found_itself inv_heard_deliver)
    next
      case False
      have "inv_heard (s\<lparr>logged := l\<rparr>)" for l
        by (rule inv_heard_keep[OF a]) (simp_all add: frame_simps)
      with Error True False show ?thesis
        by (simp add: on_response_not_found Let_def inv_heard_subscribe inv_heard_getDocument)
    qed
  qed
qed

lemma inv_heard_step: "inv_heard s \<Longrightarrow> inv_heard (step E e s)"
proof (cases e)
  case (Navigate p)
  assume a: "inv_heard s"
  let ?g = "getDocument E p s"
  let ?t = "(snd ?g)\<lparr>inner := Some (fst ?g)\<rparr>"
  have t: "inv_heard ?t"
    by (rule inv_heard_keep[OF inv_heard_getDocument[OF a, of E p]]) (simp_all add: frame_simps)
  have "inv_heard (navigate E p s)"
  proof (cases "stopped s")
    case True
    with a show ?thesis by (simp add: navigate_def)
  next
    case False
    show ?thesis
    proof (cases "result ?t (fst ?g)")
      case None
      with False t show ?thesis by (simp add: navigate_def Let_def split_beta)
    next
      case (Some n)
      have "inv_heard (notify_stream n ?t)"
        unfolding inv_heard_def
      proof
        fix m assume "m \<in> set (emitted (notify_stream n ?t))"
        then consider "m \<in> set (emitted ?t)" | "m = n"
          by (auto simp: notify_stream_def split: notification.splits)
        then show "\<exists>h. result (notify_stream n ?t) h = Some m"
        proof cases
          case 1
          with t obtain h where "result ?t h = Some m" by (auto simp: inv_heard_def)
          then have "result (notify_stream n ?t) h = Some m"
            by (simp add: notify_stream_def frame_simps split: notification.splits)
          then show ?thesis ..
        next
          case 2
          with Some have "result (notify_stream n ?t) (fst ?g) = Some m"
            by (simp add: notify_stream_def frame_simps split: notification.splits)
          then show ?thesis ..
        qed
      qed
      with False Some show ?thesis by (simp add: navigate_def Let_def split_beta)
    qed
  qed
  with Navigate show ?thesis by simp
next
  case (GetDocument u)
  assume "inv_heard s"
  with GetDocument show ?thesis by (simp add: inv_heard_getDocument)
next
  case (Response k outcome)
  assume a: "inv_heard s"
  have "inv_heard (taken k s)"
    by (rule inv_heard_keep[OF a]) (simp_all add: taken_def frame_simps)
  then have "inv_heard (respond E k outcome s)"
    using a by (auto simp: respond_def taken_def[symmetric] inv_heard_on_response split: option.splits)
  with Response show ?thesis by simp
qed

lemma inv_heard_run: "inv_heard s \<Longrightarrow> inv_heard (run E evs s)"
  by (induction evs arbitrary: s) (simp_all add: inv_heard_step)

lemma inv_heard_reachable: "inv_heard (run E evs init)"
  by (rule inv_heard_run) (simp add: inv_heard_def init_def)

section \<open>Every request resolves\<close>

text \<open>
  In every reachable state: the subject that \<^verbatim>\<open>getDocument\<close> returns is open
  or holds a document of the pipe; so does every closed subject, and the stream
  has emitted nothing else; no failure is held or emitted. Every open subject
  has its request in flight or observes the subject of a request in flight. When
  the transport answers the request of a subject, with any outcome (a text, a
  404, another failure, a text on which the compiler throws), the subject
  completes with a document of the pipe, or it now observes the subject of a
  request in flight (the not-found document's); and the answer to a request
  whose subject is observed completes that subject and its observers with one
  and the same document. So every future completes, after at most two answers
  of the transport, and never with a failure.
\<close>

lemma every_request_completes:
  "(let s = run E evs init;
        g = getDocument E url s;
        s' = step E (Response h outcome) s
    in (is_open (snd g) (fst g)
          \<or> (\<exists>d. result (snd g) (fst g) = Some (Next d) \<and> delivered E d))
       \<and> (result s k = Some n \<longrightarrow> (\<exists>d. n = Next d \<and> delivered E d))
       \<and> (m \<in> set (emitted s) \<longrightarrow> (\<exists>d. m = Next d \<and> delivered E d))
       \<and> (is_open s k \<longrightarrow> k \<in> in_flight s \<or> (\<exists>hF\<in>in_flight s. observes s k hF))
       \<and> (h \<in> in_flight s \<longrightarrow>
            ((\<exists>d. result s' h = Some (Next d) \<and> delivered E d)
               \<or> (\<exists>hF\<in>in_flight s'. observes s' h hF))
            \<and> (observes s k h \<longrightarrow>
                 (\<exists>d. result s' h = Some (Next d) \<and> result s' k = Some (Next d)
                    \<and> delivered E d))))"
proof -
  let ?s = "run E evs init"
  let ?g = "getDocument E url ?s"
  let ?s' = "respond E h outcome ?s"
  have cs: "consistent None ?s" by (rule consistent_reachable)
  have cg: "consistent None (snd ?g)" using cs by (simp add: consistent_getDocument)
  have cs': "consistent None ?s'" using cs by (rule consistent_respond)
  have ds: "inv_docs E ?s" by (rule inv_docs_reachable)
  have dg: "inv_docs E (snd ?g)" using ds by (rule inv_docs_getDocument)
  have ds': "inv_docs E ?s'" using inv_docs_step[OF ds cs, of "Response h outcome"] by simp
  have docs: "\<exists>d. n = Next d \<and> delivered E d" if "inv_docs E t" "result t j = Some n" for t j n
    using that unfolding inv_docs_def by blast
  have dich: "is_open t j \<or> (\<exists>d. result t j = Some (Next d) \<and> delivered E d)"
    if "inv_docs E t" "j < length (subjects t)" for t j
  proof (cases "result t j")
    case None
    with that(2) show ?thesis by (auto simp: result_def is_open_def subject_at_def)
  next
    case (Some n)
    with docs[OF that(1) Some] show ?thesis by auto
  qed
  have 1: "is_open (snd ?g) (fst ?g)
      \<or> (\<exists>d. result (snd ?g) (fst ?g) = Some (Next d) \<and> delivered E d)"
    by (rule dich[OF dg cached_lt[OF cg getDocument_cached]])
  have 2: "result ?s k = Some n \<longrightarrow> (\<exists>d. n = Next d \<and> delivered E d)"
    using docs[OF ds] by blast
  have 3: "m \<in> set (emitted ?s) \<longrightarrow> (\<exists>d. m = Next d \<and> delivered E d)"
  proof
    assume "m \<in> set (emitted ?s)"
    with inv_heard_reachable[of E evs] obtain j where "result ?s j = Some m"
      by (auto simp: inv_heard_def)
    then show "\<exists>d. m = Next d \<and> delivered E d" by (rule docs[OF ds])
  qed
  have 4: "is_open ?s k \<longrightarrow> k \<in> in_flight ?s \<or> (\<exists>hF\<in>in_flight ?s. observes ?s k hF)"
    using open_waits[OF cs] by blast
  have 5: "(\<exists>d. result ?s' h = Some (Next d) \<and> delivered E d)
      \<or> (\<exists>hF\<in>in_flight ?s'. observes ?s' h hF)"
    if f: "h \<in> in_flight ?s"
  proof -
    from f obtain q where q: "q \<in> set (pending ?s)" "req_subject q = h"
      by (auto simp: in_flight_def)
    have nf: "h \<notin> in_flight ?s'"
      using answered_not_in_flight[OF cs q(1), of E outcome] q(2) by simp
    have "h < length (subjects ?s)"
      using pending_facts(1)[OF cs q(1)] q(2) by (auto dest: is_open_lt)
    with length_step[of ?s E "Response h outcome"] have "h < length (subjects ?s')" by simp
    from dich[OF ds' this] show ?thesis
    proof
      assume "is_open ?s' h"
      with open_waits[OF cs'] nf show ?thesis by blast
    qed simp
  qed
  have 6: "\<exists>d. result ?s' h = Some (Next d) \<and> result ?s' k = Some (Next d) \<and> delivered E d"
    if f: "h \<in> in_flight ?s" and o: "observes ?s k h"
  proof -
    from observed_is_not_found_request[OF cs o] obtain q where
      q: "q \<in> set (pending ?s)" "req_subject q = h" "req_id q = FILE_NOT_FOUND_ID" by blast
    from not_found_request_closes[OF cs q(1,3), of E outcome] q(2) o
    obtain d where d: "result ?s' h = Some (Next d)" "result ?s' k = Some (Next d)" by auto
    from docs[OF ds' d(1)] have "delivered E d" by simp
    with d show ?thesis by blast
  qed
  from 1 2 3 4 5 6 show ?thesis unfolding Let_def step.simps by blast
qed

text \<open>
  The path \<^verbatim>\<open>x\<close> is answered with 404 and waits for the not-found document,
  whose request then fails with status 500: both subjects complete with a
  document. The path \<^verbatim>\<open>a\<close> is answered with a text, and its document is what
  the stream has emitted.
\<close>

lemma every_request_completes_example:
  "1 \<in> in_flight (run demo_env [Navigate ''x'', Response 0 (Error (HttpErrorResponse 404 ''Not Found''))] init)
   \<and> is_open (run demo_env [Navigate ''x'', Response 0 (Error (HttpErrorResponse 404 ''Not Found''))] init) 0
   \<and> observes (run demo_env [Navigate ''x'', Response 0 (Error (HttpErrorResponse 404 ''Not Found''))] init) 0 1
   \<and> (\<exists>d. result (step demo_env (Response 1 (Error (HttpErrorResponse 500 ''Server Error'')))
               (run demo_env [Navigate ''x'', Response 0 (Error (HttpErrorResponse 404 ''Not Found''))] init)) 1
             = Some (Next d)
          \<and> result (step demo_env (Response 1 (Error (HttpErrorResponse 500 ''Server Error'')))
               (run demo_env [Navigate ''x'', Response 0 (Error (HttpErrorResponse 404 ''Not Found''))] init)) 0
             = Some (Next d))
   \<and> result (run demo_env [Navigate ''a'', Response 0 (Next ''A'')] init) 0
       = Some (Next \<lparr>doc_id = ''a'', contents = Markup ''<p>A</p>''\<rparr>)
   \<and> Next \<lparr>doc_id = ''a'', contents = Markup ''<p>A</p>''\<rparr>
       \<in> set (emitted (run demo_env [Navigate ''a'', Response 0 (Next ''A'')] init))"
proof -
  let ?s = "run demo_env [Navigate ''x'', Response 0 (Error (HttpErrorResponse 404 ''Not Found''))] init"
  let ?t = "run demo_env [Navigate ''a'', Response 0 (Next ''A'')] init"
  have a: "1 \<in> in_flight ?s" by (simp add: eval_defs in_flight_def)
  have b: "is_open ?s 0" by (simp add: eval_defs)
  have c: "observes ?s 0 1" by (simp add: eval_defs observes_def)
  have d: "result ?t 0 = Some (Next \<lparr>doc_id = ''a'', contents = Markup ''<p>A</p>''\<rparr>)"
    by (simp add: eval_defs)
  have e: "Next \<lparr>doc_id = ''a'', contents = Markup ''<p>A</p>''\<rparr> \<in> set (emitted ?t)"
    by (simp add: eval_defs)
  from every_request_completes[where E = demo_env
      and evs = "[Navigate ''x'', Response 0 (Error (HttpErrorResponse 404 ''Not Found''))]"
      and h = 1 and k = 0 and outcome = "Error (HttpErrorResponse 500 ''Server Error'')"] a c
  have 1: "\<exists>d. result (step demo_env (Response 1 (Error (HttpErrorResponse 500 ''Server Error''))) ?s) 1
             = Some (Next d)
          \<and> result (step demo_env (Response 1 (Error (HttpErrorResponse 500 ''Server Error''))) ?s) 0
             = Some (Next d)"
    unfolding Let_def by blast
  from every_request_completes[where E = demo_env
      and evs = "[Navigate ''a'', Response 0 (Next ''A'')]" and k = 0
      and n = "Next \<lparr>doc_id = ''a'', contents = Markup ''<p>A</p>''\<rparr>"
      and m = "Next \<lparr>doc_id = ''a'', contents = Markup ''<p>A</p>''\<rparr>"] d e
  have 2: "\<exists>d'. Next \<lparr>doc_id = ''a'', contents = Markup ''<p>A</p>''\<rparr> = Next d'"
    unfolding Let_def by blast
  from a b c d e 1 2 show ?thesis by blast
qed

text \<open>
  What is latched is a Document except when the compiler returns something that
  is not a string: that value is wrapped and latched as it is.
\<close>

lemma non_string_output_is_latched:
  assumes r: "r \<in> set (pending (run E evs init))" and c: "compile E raw = Inr v"
    and v: "\<forall>t. v \<noteq> Markup t"
  shows "result (step E (Response (req_subject r) (Next raw)) (run E evs init)) (req_subject r)
      = Some (Next \<lparr>doc_id = req_id r, contents = v\<rparr>)
    \<and> \<not> is_document \<lparr>doc_id = req_id r, contents = v\<rparr>"
proof -
  let ?s = "run E evs init"
  let ?h = "req_subject r"
  have cs: "consistent None ?s" by (rule consistent_reachable)
  have m: "map_step E (req_id r) (Next raw) = Next \<lparr>doc_id = req_id r, contents = v\<rparr>"
    using c by (simp add: map_step_def)
  have "respond E ?h (Next raw) ?s
      = deliver (Next \<lparr>doc_id = req_id r, contents = v\<rparr>) [?h] (taken ?h ?s)"
    by (simp add: respond_pending[OF cs r] on_response_next[OF m])
  then have "result (respond E ?h (Next raw) ?s) ?h
      = Some (Next \<lparr>doc_id = req_id r, contents = v\<rparr>)"
    by (simp add: result_deliver_served[OF consistent_taken[OF cs r]])
  moreover have "\<not> is_document \<lparr>doc_id = req_id r, contents = v\<rparr>"
    using v by (cases v) (simp_all add: is_document_def)
  ultimately show ?thesis by simp
qed

text \<open>
  C2. The claim: for every path and every transport outcome, malformed transform
  output included, the future returned by \<^verbatim>\<open>getDocument\<close> completes with a
  Document and never with a failure. No future ever fails, and with a compiler
  that returns strings every future completes with a Document
  (\<open>latched_documents\<close>, \<open>every_request_completes\<close>). But when the
  compiler returns \<^verbatim>\<open>null\<close> for the text of the document \<^verbatim>\<open>a\<close>, the future
  completes with the id \<^verbatim>\<open>a\<close> and the contents \<^verbatim>\<open>null\<close>, which is not a
  Document, and the stream emits it: the test that should have turned it into
  the fetching-error document never fires.
\<close>

theorem malformed_output_is_no_document:
  "compile demo_env [] = Inr MNull
   \<and> result (run demo_env [Navigate ''a'', Response 0 (Next [])] init) 0
       = Some (Next \<lparr>doc_id = ''a'', contents = MNull\<rparr>)
   \<and> emitted (run demo_env [Navigate ''a'', Response 0 (Next [])] init)
       = [Next \<lparr>doc_id = ''a'', contents = MNull\<rparr>]
   \<and> \<not> is_document \<lparr>doc_id = ''a'', contents = MNull\<rparr>"
  by (simp add: eval_defs is_document_def)

section \<open>Fetching an id again\<close>

text \<open>A request of a history that is not among the earlier ones is the latest.\<close>

lemma latest_or_earlier: "r \<in> set rs \<Longrightarrow> r \<notin> set (butlast rs) \<Longrightarrow> last rs = r"
  by (induction rs) (auto split: if_splits)

lemma inv_refetch_stable:
  assumes "inv_refetch i s" "requests t = requests s" "cache t i = cache s i"
    and "\<And>k n. result s k = Some n \<Longrightarrow> result t k = Some n"
  shows "inv_refetch i t"
  using assms by (auto simp: inv_refetch_def fetches_def failed_def split: option.splits)

lemma inv_refetch_getDocument:
  assumes a: "inv_refetch i s"
  shows "inv_refetch i (snd (getDocument E url s))"
proof (cases "cache s (document_id url)")
  case (Some h)
  have "inv_refetch i (s\<lparr>logged := l\<rparr>)" for l
    by (rule inv_refetch_stable[OF a]) (simp_all add: frame_simps)
  with Some show ?thesis by (simp add: getDocument_hit)
next
  case None
  let ?j = "document_id url"
  let ?r = "\<lparr>req_subject = length (subjects s), req_id = ?j, req_path = request_path E ?j\<rparr>"
  let ?g = "snd (getDocument E url s)"
  have req: "requests ?g = requests s @ [?r]"
    and ca: "cache ?g = (cache s)(?j \<mapsto> length (subjects s))"
    using None by (simp_all add: getDocument_miss fetchDocument_eq Let_def)
  have res: "result s k = Some n \<Longrightarrow> result ?g k = Some n" for k n
    by (rule result_getDocument)
  show ?thesis
  proof (cases "?j = i")
    case True
    with None a have all: "\<forall>r\<in>set (fetches i s). failed s r" by (simp add: inv_refetch_def)
    have f: "fetches i ?g = fetches i s @ [?r]" using True by (simp add: fetches_def req)
    from all res have "\<forall>r\<in>set (fetches i s). failed ?g r" by (auto simp: failed_def)
    then show ?thesis using True by (simp add: inv_refetch_def f ca)
  next
    case False
    then have f: "fetches i ?g = fetches i s" by (simp add: fetches_def req)
    from False have c: "cache ?g i = cache s i" by (simp add: ca)
    from a res show ?thesis
      by (auto simp: inv_refetch_def f c failed_def split: option.splits)
  qed
qed

lemma requests_subscribe: "requests (subscribe k src s) = requests s"
  by (simp add: subscribe_def deliver_frame split: source.splits option.splits)

lemma inv_refetch_subscribe: "inv_refetch i s \<Longrightarrow> inv_refetch i (subscribe k src s)"
  by (erule inv_refetch_stable) (simp_all add: requests_subscribe cache_subscribe result_subscribe)

lemma inv_refetch_deliver: "inv_refetch i s \<Longrightarrow> inv_refetch i (deliver n hs s)"
  by (erule inv_refetch_stable) (simp_all add: deliver_frame result_deliver_closed)

lemma inv_refetch_on_response:
  assumes a: "inv_refetch i s" and consistent: "consistent (Some (req_subject q, req_id q)) s"
    and c: "cache s (req_id q) = Some (req_subject q)"
  shows "inv_refetch i (on_response E q outcome s)"
proof (cases "map_step E (req_id q) outcome")
  case (Next d)
  with a show ?thesis by (simp add: on_response_next inv_refetch_deliver)
next
  case (Error e)
  show ?thesis
  proof (cases "status e = Some 404")
    case True
    show ?thesis
    proof (cases "req_id q = FILE_NOT_FOUND_ID")
      case t: True
      with Error True a show ?thesis by (simp add: on_response_not_found_itself inv_refetch_deliver)
    next
      case False
      have "inv_refetch i (s\<lparr>logged := l\<rparr>)" for l
        by (rule inv_refetch_stable[OF a]) (simp_all add: frame_simps)
      with Error True False show ?thesis
        by (simp add: on_response_not_found Let_def inv_refetch_subscribe inv_refetch_getDocument)
    qed
  next
    case False
    let ?h = "req_subject q"
    let ?t = "snd (getErrorDoc (req_id q) e s)"
    let ?D = "deliver (Next error_doc) [?h] ?t"
    have D: "on_response E q outcome s = ?D" using Error False by (simp add: on_response_error)
    have req: "requests ?D = requests s" by (simp add: deliver_frame getErrorDoc_frame)
    have ca: "cache ?D = (cache s)(req_id q := None)" by (simp add: deliver_frame getErrorDoc_frame)
    have res: "result s k = Some n \<Longrightarrow> result ?D k = Some n" for k n
    proof -
      assume "result s k = Some n"
      then have "result ?t k = Some n"
        using subjects_cong(3)[of ?t s] by (simp add: getErrorDoc_frame)
      then show ?thesis by (rule result_deliver_closed)
    qed
    have served: "result ?D ?h = Some (Next error_doc)"
      by (rule result_deliver_served[OF consistent_getErrorDoc[OF consistent]])
    show ?thesis
    proof (cases "req_id q = i")
      case False
      then have "cache ?D i = cache s i" by (simp add: ca)
      then show ?thesis unfolding D by (rule inv_refetch_stable[OF a req _ res])
    next
      case True
      with a c have l: "fetches i s \<noteq> []" "req_subject (last (fetches i s)) = ?h"
        and b: "\<forall>r\<in>set (butlast (fetches i s)). failed s r"
        by (simp_all add: inv_refetch_def)
      have f: "fetches i ?D = fetches i s" by (simp add: fetches_def req)
      have "failed ?D r" if "r \<in> set (fetches i s)" for r
      proof (cases "r = last (fetches i s)")
        case True
        with l served show ?thesis by (simp add: failed_def)
      next
        case False
        with that have "r \<in> set (butlast (fetches i s))"
          using latest_or_earlier[of r "fetches i s"] by auto
        with b res show ?thesis by (auto simp: failed_def)
      qed
      then have all: "\<forall>r\<in>set (fetches i ?D). failed ?D r" unfolding f by blast
      have "cache ?D i = None" unfolding ca using True by simp
      with all show ?thesis unfolding D by (auto simp: inv_refetch_def dest: in_set_butlastD)
    qed
  qed
qed

lemma inv_refetch_step:
  assumes a: "inv_refetch i s" and consistent: "consistent None s"
  shows "inv_refetch i (step E e s)"
proof (cases e)
  case (Navigate p)
  have "inv_refetch i (navigate E p s)"
  proof (rule inv_refetch_stable[OF inv_refetch_getDocument[OF a, of E p]])
    show "requests (navigate E p s) = requests (snd (getDocument E p s))"
      using consistent by (auto simp: navigate_def Let_def split_beta notify_stream_def consistent_def inv_results_def
          split: option.splits notification.splits)
    show "cache (navigate E p s) i = cache (snd (getDocument E p s)) i"
      using consistent by (auto simp: navigate_def Let_def split_beta notify_stream_def consistent_def inv_results_def
          split: option.splits notification.splits)
    show "result (snd (getDocument E p s)) k = Some n \<Longrightarrow> result (navigate E p s) k = Some n" for k n
      using consistent by (auto simp: navigate_def Let_def split_beta notify_stream_def consistent_def inv_results_def
          frame_simps split: option.splits notification.splits)
  qed
  with Navigate show ?thesis by simp
next
  case (GetDocument u)
  with a show ?thesis by (simp add: inv_refetch_getDocument)
next
  case (Response k outcome)
  show ?thesis
  proof (cases "find (\<lambda>r. req_subject r = k) (pending s)")
    case None
    with Response a show ?thesis by (simp add: respond_def)
  next
    case (Some q)
    then have q: "q \<in> set (pending s)" "req_subject q = k" by (auto dest: find_pending)
    have st: "step E e s = on_response E q outcome (taken k s)"
      using Response Some by (simp add: respond_def taken_def)
    have "inv_refetch i (taken k s)"
      by (rule inv_refetch_stable[OF a]) (simp_all add: taken_def frame_simps)
    moreover have "consistent (Some (req_subject q, req_id q)) (taken k s)"
      using consistent_taken[OF consistent q(1)] q(2) by simp
    moreover have "cache (taken k s) (req_id q) = Some (req_subject q)"
      using pending_facts(2)[OF consistent q(1)] by (simp add: taken_frame)
    ultimately show ?thesis unfolding st by (rule inv_refetch_on_response)
  qed
qed

lemma inv_refetch_run: "inv_refetch i s \<Longrightarrow> consistent None s \<Longrightarrow> inv_refetch i (run E evs s)"
  by (induction evs arbitrary: s) (simp_all add: inv_refetch_step consistent_step)

lemma inv_refetch_reachable: "inv_refetch i (run E evs init)"
  by (rule inv_refetch_run) (simp add: inv_refetch_def fetches_def init_def, rule consistent_init)

section \<open>Not-found answers\<close>




section \<open>One subject per id\<close>

lemma requests_getDocument:
  "requests (snd (getDocument E url s)) = requests s
   \<or> requests (snd (getDocument E url s)) = requests s
        @ [\<lparr>req_subject = length (subjects s), req_id = document_id url,
            req_path = request_path E (document_id url)\<rparr>]"
  by (cases "cache s (document_id url)")
     (simp_all add: getDocument_hit getDocument_miss fetchDocument_eq Let_def)

lemma requests_on_response:
  "requests (on_response E q outcome s) = requests s
   \<or> requests (on_response E q outcome s) = requests s
        @ [\<lparr>req_subject = length (subjects s), req_id = FILE_NOT_FOUND_ID,
            req_path = request_path E FILE_NOT_FOUND_ID\<rparr>]"
proof (cases "map_step E (req_id q) outcome")
  case (Next d)
  then show ?thesis by (simp add: on_response_next deliver_frame)
next
  case (Error e)
  show ?thesis
  proof (cases "status e = Some 404")
    case False
    with Error show ?thesis by (simp add: on_response_error deliver_frame getErrorDoc_frame)
  next
    case True
    show ?thesis
    proof (cases "req_id q = FILE_NOT_FOUND_ID")
      case t: True
      with Error True show ?thesis by (simp add: on_response_not_found_itself deliver_frame)
    next
      case False
      define t where "t = s\<lparr>logged := logged s
          @ [LogError (''Document file not found at '' @ quoted (CHR 0x27) (req_id q))]\<rparr>"
      have "on_response E q outcome s
          = subscribe (req_subject q) (Shared (fst (getDocument E FILE_NOT_FOUND_ID t)))
              (snd (getDocument E FILE_NOT_FOUND_ID t))"
        unfolding t_def using Error True False by (simp add: on_response_not_found Let_def)
      moreover have "requests t = requests s" "subjects t = subjects s" by (simp_all add: t_def)
      ultimately show ?thesis
        using requests_getDocument[of E FILE_NOT_FOUND_ID t]
        by (simp add: requests_subscribe document_id_fnf)
    qed
  qed
qed

lemma requests_step:
  "requests (step E e s) = requests s
   \<or> (\<exists>i. requests (step E e s) = requests s
        @ [\<lparr>req_subject = length (subjects s), req_id = i, req_path = request_path E i\<rparr>])"
proof (cases e)
  case (Navigate p)
  have "requests (navigate E p s) = requests s
      \<or> requests (navigate E p s) = requests (snd (getDocument E p s))"
    by (auto simp: navigate_def Let_def split_beta notify_stream_def
        split: option.splits notification.splits)
  with requests_getDocument[of E p s] Navigate show ?thesis by auto
next
  case (GetDocument u)
  with requests_getDocument[of E u s] show ?thesis by auto
next
  case (Response k outcome)
  show ?thesis
  proof (cases "find (\<lambda>r. req_subject r = k) (pending s)")
    case None
    with Response show ?thesis by (simp add: respond_def)
  next
    case (Some q)
    with requests_on_response[of E q outcome "taken k s"] Response show ?thesis
      by (auto simp: respond_def taken_def[symmetric] taken_frame)
  qed
qed

lemma requests_run: "set (requests s) \<subseteq> set (requests (run E evs s))"
proof (induction evs arbitrary: s)
  case Nil
  show ?case by simp
next
  case (Cons e evs)
  from requests_step[of E e s] have "set (requests s) \<subseteq> set (requests (step E e s))" by auto
  with Cons[of "step E e s"] show ?case by auto
qed

lemma inv_index_step:
  assumes a: "inv_index s" and consistent: "consistent None s"
  shows "inv_index (step E e s)"
proof -
  from consistent have len: "length (requests s) = length (subjects s)" by (simp add: consistent_def inv_hist_def)
  from requests_step[of E e s] show ?thesis
  proof (elim disjE exE)
    assume "requests (step E e s) = requests s"
    with a show ?thesis by (simp add: inv_index_def)
  next
    fix i
    assume "requests (step E e s) = requests s
        @ [\<lparr>req_subject = length (subjects s), req_id = i, req_path = request_path E i\<rparr>]"
    with a len show ?thesis by (auto simp: inv_index_def nth_append less_Suc_eq)
  qed
qed

lemma inv_index_run: "inv_index s \<Longrightarrow> consistent None s \<Longrightarrow> inv_index (run E evs s)"
  by (induction evs arbitrary: s) (simp_all add: inv_index_step consistent_step)

lemma inv_index_reachable: "inv_index (run E evs init)"
  by (rule inv_index_run) (simp add: inv_index_def init_def, rule consistent_init)

lemma cached_request:
  assumes consistent: "consistent None s" and ix: "inv_index s" and c: "cache s i = Some h"
  shows "\<exists>r\<in>set (requests s). req_subject r = h \<and> req_id r = i"
proof -
  from consistent c have "id_of s h = Some i" by (simp add: consistent_def inv_cache_def)
  then have "h < length (requests s)" "req_id (requests s ! h) = i"
    by (auto simp: id_of_def split: if_splits)
  moreover from this(1) ix have "req_subject (requests s ! h) = h" by (simp add: inv_index_def)
  ultimately show ?thesis by (auto intro: bexI[of _ "requests s ! h"])
qed

text \<open>
  A subject that is not the cache entry of the id it was requested for has ended in the
  fetching-error document.
\<close>

lemma uncached_failed:
  assumes rf: "inv_refetch (req_id r) s" and r: "r \<in> set (requests s)"
    and c: "cache s (req_id r) \<noteq> Some (req_subject r)"
  shows "result s (req_subject r) = Some (Next error_doc)"
proof -
  let ?F = "fetches (req_id r) s"
  from r have m: "r \<in> set ?F" by (simp add: fetches_def)
  show ?thesis
  proof (cases "cache s (req_id r)")
    case None
    with rf m show ?thesis by (auto simp: inv_refetch_def failed_def)
  next
    case (Some h)
    with rf have l: "?F \<noteq> []" "req_subject (last ?F) = h"
      and b: "\<forall>x\<in>set (butlast ?F). failed s x"
      by (simp_all add: inv_refetch_def)
    from Some c l have "r \<noteq> last ?F" by auto
    with m have "r \<in> set (butlast ?F)"
      using latest_or_earlier[of r ?F] by auto
    with b show ?thesis by (simp add: failed_def)
  qed
qed

section \<open>Deduplication\<close>

text \<open>
  C1. Let \<open>h\<close> be the subject that \<^verbatim>\<open>getDocument(url)\<close> returns in a reachable
  state, and let any events follow the call. As long as \<open>h\<close> is open (its
  fetch has not completed), a second \<^verbatim>\<open>getDocument(url)\<close> returns the same
  subject \<open>h\<close> and changes nothing but the log: no request is issued. Once
  \<open>h\<close> has completed, with anything but the fetching-error document (or
  while it still is the id's cache entry), every later \<^verbatim>\<open>getDocument(url)\<close>,
  after any further events, returns \<open>h\<close> with its latched result and
  issues no request. At any time no two requests in flight are for the same id,
  and every open subject is the cache entry of the id it was requested for, so
  that no id has two open subjects.
\<close>

theorem one_fetch_per_id:
  "(let s1 = run E evs1 init;
        h = fst (getDocument E url s1);
        s2 = run E (evs1 @ GetDocument url # evs2) init;
        s3 = run E (evs1 @ GetDocument url # evs2 @ evs3) init
    in (is_open s2 h \<longrightarrow>
          getDocument E url s2
            = (h, s2\<lparr>logged := logged s2 @ [Log ''getting document'' (Str (document_id url))]\<rparr>))
       \<and> (result s2 h = Some n
            \<and> (cache s2 (document_id url) = Some h
                \<or> n \<noteq> Next \<lparr>doc_id = FETCHING_ERROR_ID,
                               contents = Markup FETCHING_ERROR_CONTENTS\<rparr>) \<longrightarrow>
          getDocument E url s3
            = (h, s3\<lparr>logged := logged s3 @ [Log ''getting document'' (Str (document_id url))]\<rparr>)
          \<and> result s3 h = Some n)
       \<and> distinct (map req_id (pending s2))
       \<and> (r \<in> set (requests s2) \<and> is_open s2 (req_subject r) \<longrightarrow>
            cache s2 (req_id r) = Some (req_subject r)))"
proof -
  let ?s1 = "run E evs1 init"
  let ?g = "getDocument E url ?s1"
  let ?h = "fst ?g"
  let ?s2 = "run E evs2 (snd ?g)"
  let ?s3 = "run E evs3 ?s2"
  let ?i = "document_id url"
  have e2: "run E (evs1 @ GetDocument url # evs2) init = ?s2" by (simp add: run_append)
  have e3: "run E (evs1 @ GetDocument url # evs2 @ evs3) init = ?s3" by (simp add: run_append)
  have wf1: "consistent None ?s1" by (rule consistent_reachable)
  have wfg: "consistent None (snd ?g)" using wf1 by (simp add: consistent_getDocument)
  have wf2: "consistent None ?s2" using wfg by (rule consistent_run)
  have ixg: "inv_index (snd ?g)"
    using inv_index_reachable[of E "evs1 @ [GetDocument url]"] by (simp add: run_append)
  have rf2: "inv_refetch j ?s2" for j
    using inv_refetch_reachable[of j E "evs1 @ GetDocument url # evs2"] by (simp add: e2)
  have c: "cache (snd ?g) ?i = Some ?h" by (rule getDocument_cached)
  have a: "getDocument E url ?s2
      = (?h, ?s2\<lparr>logged := logged ?s2 @ [Log ''getting document'' (Str ?i)]\<rparr>)"
    if "is_open ?s2 ?h"
    using cached_open_run[OF wfg c that] by (rule getDocument_hit)
  have cached: "cache ?s2 ?i = Some ?h"
    if res: "result ?s2 ?h = Some n" and ne: "n \<noteq> Next error_doc"
  proof (rule ccontr)
    assume nc: "cache ?s2 ?i \<noteq> Some ?h"
    from cached_request[OF wfg ixg c] obtain q where
      q: "q \<in> set (requests (snd ?g))" "req_subject q = ?h" "req_id q = ?i" by blast
    from q(1) requests_run[of "snd ?g" E evs2] have "q \<in> set (requests ?s2)" by blast
    from uncached_failed[OF rf2 this] nc q(2,3) have "result ?s2 ?h = Some (Next error_doc)"
      by simp
    with res ne show False by simp
  qed
  have b: "getDocument E url ?s3
      = (?h, ?s3\<lparr>logged := logged ?s3 @ [Log ''getting document'' (Str ?i)]\<rparr>)
      \<and> result ?s3 ?h = Some n"
    if "result ?s2 ?h = Some n" "cache ?s2 ?i = Some ?h \<or> n \<noteq> Next error_doc"
  proof -
    from that cached have "cache ?s2 ?i = Some ?h" by blast
    from cached_result_run[OF wf2 this that(1), of E evs3] show ?thesis
      by (simp add: getDocument_hit)
  qed
  have d: "distinct (map req_id (pending ?s2))" using wf2 by (rule pending_ids_distinct)
  have f: "cache ?s2 (req_id r) = Some (req_subject r)"
    if "r \<in> set (requests ?s2)" "is_open ?s2 (req_subject r)"
  proof (rule ccontr)
    assume "cache ?s2 (req_id r) \<noteq> Some (req_subject r)"
    from uncached_failed[OF rf2 that(1) this] that(2) show False
      by (auto dest: result_Some_closed)
  qed
  from a b d f show ?thesis unfolding Let_def e2 e3 error_doc_def by blast
qed

text \<open>
  The document \<^verbatim>\<open>a\<close>, asked for again while its request is in flight and again
  after its request has succeeded.
\<close>

theorem one_fetch_per_id_witness:
  "is_open (run demo_env ([] @ GetDocument ''a'' # [Navigate ''b'']) init)
       (fst (getDocument demo_env ''a'' (run demo_env [] init)))
   \<and> fst (getDocument demo_env ''a'' (run demo_env ([] @ GetDocument ''a'' # [Navigate ''b'']) init))
       = fst (getDocument demo_env ''a'' (run demo_env [] init))
   \<and> cache (run demo_env ([] @ GetDocument ''a'' # [Navigate ''b'']) init) ''b'' = Some 1
   \<and> result (run demo_env ([] @ GetDocument ''a'' # [Response 0 (Next ''A'')]) init)
       (fst (getDocument demo_env ''a'' (run demo_env [] init)))
       = Some (Next \<lparr>doc_id = ''a'', contents = Markup ''<p>A</p>''\<rparr>)
   \<and> fst (getDocument demo_env ''a''
         (run demo_env ([] @ GetDocument ''a'' # [Response 0 (Next ''A'')] @ [Navigate ''b'']) init))
       = fst (getDocument demo_env ''a'' (run demo_env [] init))
   \<and> result (run demo_env ([] @ GetDocument ''a'' # [Response 0 (Next ''A'')] @ [Navigate ''b'']) init)
         (fst (getDocument demo_env ''a'' (run demo_env [] init)))
       = Some (Next \<lparr>doc_id = ''a'', contents = Markup ''<p>A</p>''\<rparr>)"
proof -
  let ?rb = "\<lparr>req_subject = 1, req_id = ''b'', req_path = ''/content/docs/b.md''\<rparr>"
  have h: "fst (getDocument demo_env ''a'' (run demo_env [] init)) = 0"
    by (simp add: eval_defs)
  have a: "is_open (run demo_env ([] @ GetDocument ''a'' # [Navigate ''b'']) init) 0"
    by (simp add: eval_defs)
  have b: "result (run demo_env ([] @ GetDocument ''a'' # [Response 0 (Next ''A'')]) init) 0
      = Some (Next \<lparr>doc_id = ''a'', contents = Markup ''<p>A</p>''\<rparr>)"
    by (simp add: eval_defs)
  have c: "Next \<lparr>doc_id = ''a'', contents = Markup ''<p>A</p>''\<rparr>
      \<noteq> Next \<lparr>doc_id = FETCHING_ERROR_ID, contents = Markup FETCHING_ERROR_CONTENTS\<rparr>"
    by (simp add: FETCHING_ERROR_ID_def)
  have r: "?rb \<in> set (requests (run demo_env ([] @ GetDocument ''a'' # [Navigate ''b'']) init))"
    by (simp add: eval_defs)
  have o: "is_open (run demo_env ([] @ GetDocument ''a'' # [Navigate ''b'']) init) (req_subject ?rb)"
    by (simp add: eval_defs)
  from one_fetch_per_id[where E = demo_env and ?evs1.0 = "[]" and url = "''a''"
      and ?evs2.0 = "[Navigate ''b'']" and ?evs3.0 = "[]" and r = ?rb] a r o
  have 1: "fst (getDocument demo_env ''a'' (run demo_env ([] @ GetDocument ''a'' # [Navigate ''b'']) init)) = 0
      \<and> cache (run demo_env ([] @ GetDocument ''a'' # [Navigate ''b'']) init) ''b'' = Some 1"
    unfolding Let_def h by simp
  from one_fetch_per_id[where E = demo_env and ?evs1.0 = "[]" and url = "''a''"
      and ?evs2.0 = "[Response 0 (Next ''A'')]"
      and n = "Next \<lparr>doc_id = ''a'', contents = Markup ''<p>A</p>''\<rparr>"
      and ?evs3.0 = "[Navigate ''b'']"] b c
  have 2: "fst (getDocument demo_env ''a''
         (run demo_env ([] @ GetDocument ''a'' # [Response 0 (Next ''A'')] @ [Navigate ''b'']) init)) = 0
     \<and> result (run demo_env ([] @ GetDocument ''a'' # [Response 0 (Next ''A'')] @ [Navigate ''b'']) init) 0
       = Some (Next \<lparr>doc_id = ''a'', contents = Markup ''<p>A</p>''\<rparr>)"
    unfolding Let_def h by simp
  from h a b 1 2 show ?thesis by simp
qed

end
